theory Spec2Isabelle
  imports Main "HOL-Library.Word"
begin

unbundle bit_operations_syntax

section \<open>Python values, errors and \<open>struct\<close>\<close>

text \<open>
  The model follows \<^verbatim>\<open>PlaygroundStandardPacketEncoder.py\<close>. Bytes are 8-bit words, a
  Python \<^verbatim>\<open>str\<close> is its list of code points, Python integers are unbounded (\<open>int\<close>).
  Every \<^verbatim>\<open>raise\<close> of the source, and every exception of a library call it makes, is a
  value of \<open>error\<close>; the formatted message of an exception is kept as a \<open>message\<close> with the
  arguments that the source formats into it.
\<close>

type_synonym byte = "8 word"
type_synonym pystr = "nat list"

datatype message =
    CannotEncodeType
  | CannotDecodeType
  | CannotEncodeUintOfSize int
  | StringLongerThan nat
  | BufferLongerThan nat
  | FieldUnsetNotOptional string
  | ErrorEncodingField string
  | ErrorDecodingField string
  | ErrorDecodingIndex nat
  | DuplicateField
  | DuplicateExplicitTag
  | UnpackSizeExceedsLimit nat nat
  | PacketDeserializationError
  | PacketDeserializationSizeError int int

datatype error =
    PacketEncodingError message
  | Exception message
  | StructError
  | TypeError
  | AttributeError
  | EncodingError
  | UnboundLocalError
  | UnicodeEncodeError
  | UnicodeDecodeError

definition ebind :: "error + 'a \<Rightarrow> ('a \<Rightarrow> error + 'b) \<Rightarrow> error + 'b" where
  "ebind m f = (case m of Inl e \<Rightarrow> Inl e | Inr x \<Rightarrow> f x)"

subsection \<open>Big-endian integers\<close>

fun be_bytes :: "nat \<Rightarrow> nat \<Rightarrow> byte list" where
  "be_bytes 0 v = []"
| "be_bytes (Suc n) v = be_bytes n (v div 256) @ [word_of_nat v]"

definition be_nat :: "byte list \<Rightarrow> nat" where
  "be_nat bs = foldl (\<lambda>acc x. acc * 256 + unat x) 0 bs"

subsection \<open>The pack codes of \<^verbatim>\<open>struct\<close> that the encoders use\<close>

text \<open>
  \<^verbatim>\<open>"!B" "!H" "!I" "!Q"\<close> are the unsigned and \<^verbatim>\<open>"!b" "!h" "!i" "!q"\<close> the signed big-endian
  integers of 1, 2, 4 and 8 bytes, \<^verbatim>\<open>"!?"\<close> is a one-byte boolean. \<^verbatim>\<open>struct.pack\<close> raises
  \<^verbatim>\<open>struct.error\<close> for an integer outside the range of the code.
\<close>

datatype packcode =
  Code_B | Code_H | Code_I | Code_Q | Code_b | Code_h | Code_i | Code_q | Code_bool

fun calcsize :: "packcode \<Rightarrow> nat" where
  "calcsize Code_B = 1"
| "calcsize Code_H = 2"
| "calcsize Code_I = 4"
| "calcsize Code_Q = 8"
| "calcsize Code_b = 1"
| "calcsize Code_h = 2"
| "calcsize Code_i = 4"
| "calcsize Code_q = 8"
| "calcsize Code_bool = 1"

fun is_signed :: "packcode \<Rightarrow> bool" where
  "is_signed Code_b = True"
| "is_signed Code_h = True"
| "is_signed Code_i = True"
| "is_signed Code_q = True"
| "is_signed _ = False"

definition struct_pack_int :: "packcode \<Rightarrow> int \<Rightarrow> error + byte list" where
  "struct_pack_int code v =
     (let n = calcsize code in
      if is_signed code then
        (if - (2 ^ (8 * n - 1)) \<le> v \<and> v < 2 ^ (8 * n - 1)
         then Inr (be_bytes n (nat (v mod 2 ^ (8 * n))))
         else Inl StructError)
      else
        (if 0 \<le> v \<and> v < 2 ^ (8 * n)
         then Inr (be_bytes n (nat v))
         else Inl StructError))"

definition struct_unpack_int :: "packcode \<Rightarrow> byte list \<Rightarrow> int" where
  "struct_unpack_int code chunk =
     (let n = calcsize code; u = int (be_nat chunk) in
      if is_signed code \<and> 2 ^ (8 * n - 1) \<le> u then u - 2 ^ (8 * n) else u)"

text \<open>
  The code \<^verbatim>\<open>"{n}s"\<close>: exactly \<open>n\<close> bytes, the argument cut or padded with zero bytes. A
  format whose repeat count is above \<^verbatim>\<open>PY_SSIZE_T_MAX\<close> (of a 64-bit build) is refused by
  \<^verbatim>\<open>struct\<close> with \<^verbatim>\<open>struct.error\<close>; where the source can reach such a count (the length of a
  buffer) the model has this branch.
\<close>

definition struct_pack_s :: "nat \<Rightarrow> byte list \<Rightarrow> byte list" where
  "struct_pack_s n bs = take n bs @ replicate (n - length bs) 0"

definition PY_SSIZE_T_MAX :: nat where
  "PY_SSIZE_T_MAX = 2 ^ 63 - 1"

subsection \<open>UTF-8\<close>

text \<open>
  \<^verbatim>\<open>str.encode("utf-8")\<close> and \<^verbatim>\<open>bytes.decode("utf-8")\<close> of Python, in strict mode: a lone
  surrogate does not encode; overlong forms, surrogates, code points above \<open>0x10FFFF\<close> and
  cut sequences do not decode.
\<close>

definition utf8_encode_cp :: "nat \<Rightarrow> error + nat list" where
  "utf8_encode_cp c =
     (if c < 0x80 then Inr [c]
      else if c < 0x800 then Inr [0xC0 + c div 64, 0x80 + c mod 64]
      else if c < 0x10000 then
        (if 0xD800 \<le> c \<and> c \<le> 0xDFFF then Inl UnicodeEncodeError
         else Inr [0xE0 + c div 4096, 0x80 + c div 64 mod 64, 0x80 + c mod 64])
      else if c < 0x110000 then
        Inr [0xF0 + c div 262144, 0x80 + c div 4096 mod 64, 0x80 + c div 64 mod 64,
             0x80 + c mod 64]
      else Inl UnicodeEncodeError)"

fun utf8_encode_nat :: "pystr \<Rightarrow> error + nat list" where
  "utf8_encode_nat [] = Inr []"
| "utf8_encode_nat (c # cs) =
     ebind (utf8_encode_cp c) (\<lambda>bs. ebind (utf8_encode_nat cs) (\<lambda>rest. Inr (bs @ rest)))"

definition utf8_encode :: "pystr \<Rightarrow> error + byte list" where
  "utf8_encode s = ebind (utf8_encode_nat s) (\<lambda>ns. Inr (map word_of_nat ns))"

definition is_cont :: "nat \<Rightarrow> bool" where
  "is_cont b = (0x80 \<le> b \<and> b < 0xC0)"

fun utf8_decode_nat :: "nat list \<Rightarrow> error + pystr" where
  "utf8_decode_nat [] = Inr []"
| "utf8_decode_nat (b0 # bs) =
     (if b0 < 0x80 then ebind (utf8_decode_nat bs) (\<lambda>cs. Inr (b0 # cs))
      else if 0xC2 \<le> b0 \<and> b0 < 0xE0 then
        (case bs of
           b1 # r \<Rightarrow>
             if is_cont b1
             then ebind (utf8_decode_nat r)
                    (\<lambda>cs. Inr (((b0 - 0xC0) * 64 + (b1 - 0x80)) # cs))
             else Inl UnicodeDecodeError
         | _ \<Rightarrow> Inl UnicodeDecodeError)
      else if 0xE0 \<le> b0 \<and> b0 < 0xF0 then
        (case bs of
           b1 # b2 # r \<Rightarrow>
             if is_cont b1 \<and> is_cont b2 \<and> (if b0 = 0xE0 then 0xA0 \<le> b1 else True)
                \<and> (if b0 = 0xED then b1 < 0xA0 else True)
             then ebind (utf8_decode_nat r)
                    (\<lambda>cs. Inr (((b0 - 0xE0) * 4096 + (b1 - 0x80) * 64 + (b2 - 0x80)) # cs))
             else Inl UnicodeDecodeError
         | _ \<Rightarrow> Inl UnicodeDecodeError)
      else if 0xF0 \<le> b0 \<and> b0 < 0xF5 then
        (case bs of
           b1 # b2 # b3 # r \<Rightarrow>
             if is_cont b1 \<and> is_cont b2 \<and> is_cont b3 \<and> (if b0 = 0xF0 then 0x90 \<le> b1 else True)
                \<and> (if b0 = 0xF4 then b1 < 0x90 else True)
             then ebind (utf8_decode_nat r)
                    (\<lambda>cs. Inr (((b0 - 0xF0) * 262144 + (b1 - 0x80) * 4096
                                 + (b2 - 0x80) * 64 + (b3 - 0x80)) # cs))
             else Inl UnicodeDecodeError
         | _ \<Rightarrow> Inl UnicodeDecodeError)
      else Inl UnicodeDecodeError)"

definition utf8_decode :: "byte list \<Rightarrow> error + pystr" where
  "utf8_decode bs = utf8_decode_nat (map unat bs)"

section \<open>The field-type model\<close>

text \<open>
  Modelled from the spec: the field-type object model (\<^verbatim>\<open>playground.network.packet.fieldtypes\<close>)
  is not part of the encoder module. A field value exposes a category with, for a composite,
  its inner type; an attribute set queried by name with a default; and a data slot that
  holds the typed value or the sentinel \<open>UNSET\<close>. Here \<open>ftype\<close> is the declared type of a
  field (category, attributes, element type of a list, \<^verbatim>\<open>FIELDS\<close> of a group) and \<open>fdata\<close>
  is the content of its data slot; the raw fields of a group instance are kept by name.
  The FLOAT category is left out: its wire form is IEEE 754 arithmetic.
\<close>

record attributes =
  MaxValue :: "int option"
  Optional :: "bool option"
  ExplicitTag :: "int option"

datatype ftype =
    UINT_field attributes
  | INT_field attributes
  | BOOL_field attributes
  | STRING_field attributes
  | BUFFER_field attributes
  | LIST_field attributes ftype
  | GROUP_field attributes "(string \<times> ftype) list"

datatype fdata =
    UNSET
  | IntData int
  | BoolData bool
  | StrData pystr
  | BufData "byte list"
  | ListData "fdata list"
  | GroupData "(string \<times> fdata) list"

fun attrs_of :: "ftype \<Rightarrow> attributes" where
  "attrs_of (UINT_field a) = a"
| "attrs_of (INT_field a) = a"
| "attrs_of (BOOL_field a) = a"
| "attrs_of (STRING_field a) = a"
| "attrs_of (BUFFER_field a) = a"
| "attrs_of (LIST_field a t) = a"
| "attrs_of (GROUP_field a fs) = a"

definition GetAttribute :: "'a option \<Rightarrow> 'a \<Rightarrow> 'a" where
  "GetAttribute v dflt = (case v of None \<Rightarrow> dflt | Some x \<Rightarrow> x)"

text \<open>
  \<^verbatim>\<open>PacketFields.__getrawfield__(name)\<close> and \<^verbatim>\<open>initializeData()\<close>: the raw fields of a
  fresh instance are all \<open>UNSET\<close>; decoding into a raw field replaces its slot.
\<close>

definition getrawfield :: "(string \<times> fdata) list \<Rightarrow> string \<Rightarrow> error + fdata" where
  "getrawfield raw fieldName =
     (case map_of raw fieldName of None \<Rightarrow> Inl AttributeError | Some d \<Rightarrow> Inr d)"

definition setrawfield :: "string \<Rightarrow> fdata \<Rightarrow> (string \<times> fdata) list \<Rightarrow> (string \<times> fdata) list" where
  "setrawfield fieldName d raw = map (\<lambda>(n, x). if n = fieldName then (n, d) else (n, x)) raw"

definition initializeData :: "(string \<times> ftype) list \<Rightarrow> (string \<times> fdata) list" where
  "initializeData fs = map (\<lambda>(n, t). (n, UNSET)) fs"

section \<open>Encoders\<close>

text \<open>
  An encoder touches the stream only through \<^verbatim>\<open>stream.pack\<close>, one call after the other:
  the model of an encoder returns the bytes it packs, in order, or the exception that
  aborts it.
\<close>

subsection \<open>Intrinsic types\<close>

text \<open>
  \<^verbatim>\<open>stream.pack(packCode, fieldType.data())\<close>. A slot that holds a Python value of another
  type than its category's is excluded by the field-type model; \<open>struct_pack\<close> answers
  \<open>StructError\<close> there.
\<close>

definition struct_pack :: "packcode \<Rightarrow> fdata \<Rightarrow> error + byte list" where
  "struct_pack code d =
     (if code = Code_bool then
        (case d of BoolData v \<Rightarrow> Inr [if v then 1 else 0] | _ \<Rightarrow> Inl StructError)
      else
        (case d of IntData v \<Rightarrow> struct_pack_int code v | _ \<Rightarrow> Inl StructError))"

definition struct_unpack :: "packcode \<Rightarrow> byte list \<Rightarrow> fdata" where
  "struct_unpack code chunk =
     (if code = Code_bool then BoolData (be_nat chunk \<noteq> 0)
      else IntData (struct_unpack_int code chunk))"

definition IntrinsicTypeStandardEncoder_encode ::
  "(error + packcode) \<Rightarrow> fdata \<Rightarrow> error + byte list" where
  "IntrinsicTypeStandardEncoder_encode getPackCode d =
     ebind getPackCode (\<lambda>packCode. struct_pack packCode d)"

definition UintEncoder_SIZE_TO_PACKCODE :: "(int \<times> packcode) list" where
  "UintEncoder_SIZE_TO_PACKCODE =
     [(2 ^ 8, Code_B), (2 ^ 16, Code_H), (2 ^ 32, Code_I), (2 ^ 64, Code_Q)]"

definition IntEncoder_SIZE_TO_PACKCODE :: "(int \<times> packcode) list" where
  "IntEncoder_SIZE_TO_PACKCODE =
     [(2 ^ 8, Code_b), (2 ^ 16, Code_h), (2 ^ 32, Code_i), (2 ^ 64, Code_q)]"

definition DEFAULT_MAXVALUE :: int where
  "DEFAULT_MAXVALUE = 2 ^ 32 - 1"

text \<open>
  \<^verbatim>\<open>_maxValueToPackCode\<close>: the \<^verbatim>\<open>for\<close> loop leaves \<^verbatim>\<open>packMaxValue, packCode\<close> at the entry
  where it breaks, or at the last entry of the table; \<open>scan_table\<close> returns that entry.
\<close>

fun scan_table ::
  "(int \<times> packcode) list \<Rightarrow> int \<Rightarrow> (int \<times> packcode) option \<Rightarrow> (int \<times> packcode) option" where
  "scan_table [] maxValue cur = cur"
| "scan_table ((packMaxValue, packCode) # rest) maxValue cur =
     (if maxValue < packMaxValue then Some (packMaxValue, packCode)
      else scan_table rest maxValue (Some (packMaxValue, packCode)))"

definition maxValueToPackCode :: "(int \<times> packcode) list \<Rightarrow> int \<Rightarrow> error + packcode" where
  "maxValueToPackCode table maxValue =
     (case scan_table table maxValue None of
        None \<Rightarrow> Inl UnboundLocalError
      | Some (packMaxValue, packCode) \<Rightarrow>
          if maxValue \<ge> packMaxValue
          then Inl (PacketEncodingError (CannotEncodeUintOfSize maxValue))
          else Inr packCode)"

definition UintEncoder_getPackCode ::
  "(int \<times> packcode) list \<Rightarrow> attributes \<Rightarrow> error + packcode" where
  "UintEncoder_getPackCode table a =
     maxValueToPackCode table (GetAttribute (MaxValue a) DEFAULT_MAXVALUE)"

definition BoolEncoder_getPackCode :: "error + packcode" where
  "BoolEncoder_getPackCode = Inr Code_bool"

subsection \<open>Strings and buffers\<close>

definition StringEncoder_MAX_LENGTH :: nat where
  "StringEncoder_MAX_LENGTH = 2 ^ (8 * 2)"

definition StringEncoder_encode :: "fdata \<Rightarrow> error + byte list" where
  "StringEncoder_encode d =
     (case d of
        StrData s \<Rightarrow>
          (let strLen = length s in
           if length s > StringEncoder_MAX_LENGTH
           then Inl (PacketEncodingError (StringLongerThan strLen))
           else ebind (utf8_encode s) (\<lambda>strEncoded.
                ebind (struct_pack_int Code_H (int strLen)) (\<lambda>hdr.
                Inr (hdr @ struct_pack_s strLen strEncoded))))
      | _ \<Rightarrow> Inl TypeError)"

definition BufferEncoder_MAX_LENGTH :: nat where
  "BufferEncoder_MAX_LENGTH = 2 ^ (8 * 8)"

definition BufferEncoder_encode :: "fdata \<Rightarrow> error + byte list" where
  "BufferEncoder_encode d =
     (case d of
        BufData bs \<Rightarrow>
          (let bufLen = length bs in
           if bufLen > BufferEncoder_MAX_LENGTH
           then Inl (PacketEncodingError (BufferLongerThan bufLen))
           else if PY_SSIZE_T_MAX < bufLen then Inl StructError
           else ebind (struct_pack_int Code_Q (int bufLen)) (\<lambda>hdr.
                Inr (hdr @ struct_pack_s bufLen bs)))
      | _ \<Rightarrow> Inl TypeError)"

subsection \<open>Tag assignment of a group\<close>

text \<open>
  Modelled from the spec: \<^verbatim>\<open>Bijection\<close> (\<^verbatim>\<open>playground.common.datastructures\<close>) is the
  \<open>name \<leftrightarrow> tag\<close> bijection of the spec (4.5), a forward and an inverse lookup built in
  one pass. The model keeps the pairs in insertion order: \<^verbatim>\<open>name in b\<close> asks for a key,
  \<^verbatim>\<open>tag in b.inverse()\<close> for a value. Resolving a name or a tag that has no image fails;
  the spec gives this failure by its kind only (4.5: unknown tag, \<^verbatim>\<open>EncodingError\<close>; 7: error
  kinds, not class names), and \<open>EncodingError\<close> is the error of the model for it.
\<close>

type_synonym bijection = "(string \<times> int) list"

definition bij_contains :: "bijection \<Rightarrow> string \<Rightarrow> bool" where
  "bij_contains b fieldName = (fieldName \<in> fst ` set b)"

definition inverse_contains :: "bijection \<Rightarrow> int \<Rightarrow> bool" where
  "inverse_contains b tag = (tag \<in> snd ` set b)"

definition bij_getitem :: "bijection \<Rightarrow> string \<Rightarrow> error + int" where
  "bij_getitem b fieldName =
     (case map_of b fieldName of None \<Rightarrow> Inl EncodingError | Some tag \<Rightarrow> Inr tag)"

definition inverse_getitem :: "bijection \<Rightarrow> int \<Rightarrow> error + string" where
  "inverse_getitem b tag =
     (case map_of (map (\<lambda>(n, t). (t, n)) b) tag of None \<Rightarrow> Inl EncodingError | Some n \<Rightarrow> Inr n)"

text \<open>
  \<^verbatim>\<open>while autoTag in fieldToTag.inverse(): autoTag += 1\<close>. In \<open>processFields_loop\<close> the
  option \<open>ExplicitTag (attrs_of fieldType)\<close> is \<^verbatim>\<open>GetAttribute(fieldType, ExplicitTag, None)\<close>.
\<close>

function skip_used :: "int \<Rightarrow> bijection \<Rightarrow> int" where
  "skip_used autoTag b =
     (if inverse_contains b autoTag then skip_used (autoTag + 1) b else autoTag)"
  by pat_completeness auto

lemma filter_ge_shrinks:
  "a \<in> set xs \<Longrightarrow> length (filter (\<lambda>t. a + 1 \<le> t) xs) < length (filter (\<lambda>t. (a::int) \<le> t) xs)"
proof (induction xs)
  case Nil
  then show ?case by simp
next
  case (Cons x xs)
  have le: "length (filter (\<lambda>t. a + 1 \<le> t) xs) \<le> length (filter (\<lambda>t. a \<le> t) xs)"
    by (induction xs) auto
  show ?case
  proof (cases "a \<in> set xs")
    case True
    with Cons.IH show ?thesis by auto
  next
    case False
    with Cons.prems have "x = a" by simp
    with le show ?thesis by simp
  qed
qed

termination skip_used
proof (relation "measure (\<lambda>(a, b). length (filter (\<lambda>t. a \<le> t) (map snd b)))")
  show "wf (measure (\<lambda>(a, b). length (filter (\<lambda>t. a \<le> t) (map snd b))))"
    by simp
next
  fix autoTag :: int and b :: bijection
  assume "inverse_contains b autoTag"
  then have "autoTag \<in> set (map snd b)"
    by (simp add: inverse_contains_def)
  then show "((autoTag + 1, b), (autoTag, b))
      \<in> measure (\<lambda>(a, b). length (filter (\<lambda>t. a \<le> t) (map snd b)))"
    using filter_ge_shrinks [of autoTag "map snd b"] by simp
qed

declare skip_used.simps [simp del]

fun processFields_loop :: "(string \<times> ftype) list \<Rightarrow> int \<Rightarrow> bijection \<Rightarrow> error + bijection" where
  "processFields_loop [] autoTag fieldToTag = Inr fieldToTag"
| "processFields_loop ((fieldName, fieldType) # rest) autoTag fieldToTag =
     (if bij_contains fieldToTag fieldName then Inl (Exception DuplicateField)
      else
        (case ExplicitTag (attrs_of fieldType) of
           Some tag \<Rightarrow>
             if inverse_contains fieldToTag tag then Inl (Exception DuplicateExplicitTag)
             else processFields_loop rest autoTag (fieldToTag @ [(fieldName, tag)])
         | None \<Rightarrow>
             (let autoTag' = skip_used autoTag fieldToTag in
              processFields_loop rest autoTag' (fieldToTag @ [(fieldName, autoTag')]))))"

definition processFields :: "(string \<times> ftype) list \<Rightarrow> error + bijection" where
  "processFields fs = processFields_loop fs 0 []"

subsection \<open>Lists and groups\<close>

fun encode_all :: "('a \<Rightarrow> error + byte list) \<Rightarrow> 'a list \<Rightarrow> error + byte list" where
  "encode_all f [] = Inr []"
| "encode_all f (x # xs) = ebind (f x) (\<lambda>b. ebind (encode_all f xs) (\<lambda>r. Inr (b @ r)))"

definition ListEncoder_encode ::
  "(ftype \<Rightarrow> fdata \<Rightarrow> error + byte list) \<Rightarrow> ftype \<Rightarrow> fdata \<Rightarrow> error + byte list" where
  "ListEncoder_encode topEncoder t d =
     (case d of
        ListData items \<Rightarrow>
          ebind (struct_pack_int Code_H (int (length items))) (\<lambda>hdr.
          ebind (encode_all (topEncoder t) items) (\<lambda>body.
          Inr (hdr @ body)))
      | _ \<Rightarrow> Inl TypeError)"

fun collect_fields ::
  "(string \<times> ftype) list \<Rightarrow> (string \<times> fdata) list \<Rightarrow> error + (string \<times> ftype \<times> fdata) list" where
  "collect_fields [] raw = Inr []"
| "collect_fields ((fieldName, fieldType) # rest) raw =
     ebind (getrawfield raw fieldName) (\<lambda>d.
       if d = UNSET then
         (if GetAttribute (Optional (attrs_of fieldType)) False = True
          then collect_fields rest raw
          else Inl (PacketEncodingError (FieldUnsetNotOptional fieldName)))
       else ebind (collect_fields rest raw) (\<lambda>r. Inr ((fieldName, fieldType, d) # r)))"

definition try_encode :: "string \<Rightarrow> error + 'a \<Rightarrow> error + 'a" where
  "try_encode fieldName m =
     (case m of
        Inl encodingException \<Rightarrow> Inl (PacketEncodingError (ErrorEncodingField fieldName))
      | Inr x \<Rightarrow> Inr x)"

definition encode_field ::
  "(ftype \<Rightarrow> fdata \<Rightarrow> error + byte list) \<Rightarrow> bijection \<Rightarrow> string \<times> ftype \<times> fdata
     \<Rightarrow> error + byte list" where
  "encode_field topEncoder fieldToTag = (\<lambda>(fieldName, fieldType, d).
     try_encode fieldName
       (ebind (bij_getitem fieldToTag fieldName) (\<lambda>tag.
        ebind (struct_pack_int Code_H tag) (\<lambda>tagBytes.
        ebind (topEncoder fieldType d) (\<lambda>valueBytes.
        Inr (tagBytes @ valueBytes))))))"

definition PacketFieldsEncoder_encode ::
  "(ftype \<Rightarrow> fdata \<Rightarrow> error + byte list) \<Rightarrow> (string \<times> ftype) list \<Rightarrow> fdata
     \<Rightarrow> error + byte list" where
  "PacketFieldsEncoder_encode topEncoder fs d =
     (case d of
        GroupData raw \<Rightarrow>
          ebind (processFields fs) (\<lambda>fieldToTag.
          ebind (collect_fields fs raw) (\<lambda>encodeFields.
          ebind (struct_pack_int Code_H (int (length encodeFields))) (\<lambda>cnt.
          ebind (encode_all (encode_field topEncoder fieldToTag) encodeFields) (\<lambda>body.
          Inr (cnt @ body)))))
      | _ \<Rightarrow> Inl AttributeError)"

lemma encode_all_cong:
  "(\<And>x. x \<in> set xs \<Longrightarrow> f x = g x) \<Longrightarrow> encode_all f xs = encode_all g xs"
  by (induction xs) auto

lemma ListEncoder_encode_cong [fundef_cong]:
  "t = t' \<Longrightarrow> tp t' = tp' t' \<Longrightarrow> ListEncoder_encode tp t = ListEncoder_encode tp' t'"
  by (rule ext) (simp add: ListEncoder_encode_def split: fdata.splits)

lemma collect_fields_set:
  "collect_fields fs raw = Inr xs \<Longrightarrow> (n, t, d) \<in> set xs \<Longrightarrow> (n, t) \<in> set fs"
proof (induction fs arbitrary: xs)
  case Nil
  then show ?case by simp
next
  case (Cons f fs)
  obtain fn ft where f: "f = (fn, ft)" by (cases f)
  from Cons.prems show ?case
    unfolding f
    by (auto simp: ebind_def split: sum.splits if_splits dest: Cons.IH)
qed

lemma PacketFieldsEncoder_encode_cong [fundef_cong]:
  assumes "fs = fs'" and "\<And>t. t \<in> snd ` set fs' \<Longrightarrow> tp t = tp' t"
  shows "PacketFieldsEncoder_encode tp fs = PacketFieldsEncoder_encode tp' fs'"
proof (rule ext)
  fix d
  have "encode_all (encode_field tp b) xs = encode_all (encode_field tp' b) xs"
    if "collect_fields fs' raw = Inr xs" for raw xs b
  proof (rule encode_all_cong)
    fix x assume x: "x \<in> set xs"
    obtain n t v where xe: "x = (n, t, v)" by (cases x)
    with x that have "(n, t) \<in> set fs'" by (auto dest: collect_fields_set)
    then have "tp t = tp' t" by (intro assms(2)) force
    then show "encode_field tp b x = encode_field tp' b x"
      by (simp add: encode_field_def xe)
  qed
  then show "PacketFieldsEncoder_encode tp fs d = PacketFieldsEncoder_encode tp' fs' d"
    unfolding PacketFieldsEncoder_encode_def assms(1)
    by (auto simp: ebind_def split: fdata.splits sum.splits)
qed

text \<open>
  \<^verbatim>\<open>PlaygroundStandardPacketEncoder.encode\<close>: the registry gives the encoder class of the
  field's category (every category of the model is registered at import of the module),
  and the encoder gets the top-level encoder for the fields it holds.
\<close>

fun encode :: "ftype \<Rightarrow> fdata \<Rightarrow> error + byte list" where
  "encode (UINT_field a) =
     IntrinsicTypeStandardEncoder_encode (UintEncoder_getPackCode UintEncoder_SIZE_TO_PACKCODE a)"
| "encode (INT_field a) =
     IntrinsicTypeStandardEncoder_encode (UintEncoder_getPackCode IntEncoder_SIZE_TO_PACKCODE a)"
| "encode (BOOL_field a) = IntrinsicTypeStandardEncoder_encode BoolEncoder_getPackCode"
| "encode (STRING_field a) = StringEncoder_encode"
| "encode (BUFFER_field a) = BufferEncoder_encode"
| "encode (LIST_field a t) = ListEncoder_encode encode t"
| "encode (GROUP_field a fs) = PacketFieldsEncoder_encode encode fs"

section \<open>The resumable decoder\<close>

subsection \<open>The stream adapter\<close>

text \<open>
  Modelled from the spec: \<^verbatim>\<open>AbstractStreamAdapter\<close> and the stream under it are not in the
  encoder module; the adapter offers \<^verbatim>\<open>available()\<close>, \<^verbatim>\<open>tell()\<close>, \<^verbatim>\<open>seek(pos)\<close> and
  \<^verbatim>\<open>read(n)\<close> over a byte stream, and \<^verbatim>\<open>Adapt\<close> of an adapter is that adapter.

  A decoder is a Python generator: it runs until it returns, raises, or yields
  \<^verbatim>\<open>DECODE_WAITING_FOR_STREAM\<close>, and after a yield its caller may write bytes to the
  stream before resuming it. The model runs the generator together with its caller:
  \<open>pending\<close> holds the writes the caller still makes, one chunk between a yield and the
  next resumption. Every yield takes the next chunk; a yield with nothing pending leaves
  the generator suspended, which is the outcome \<open>NeedMore\<close>.
\<close>

record dstream =
  buf :: "byte list"
  pos :: nat
  max_size :: "nat option"
  pending :: "byte list list"

datatype 'a outcome =
    Done 'a dstream
  | NeedMore dstream
  | Raised error dstream

type_synonym 'a gen = "dstream \<Rightarrow> 'a outcome"

definition greturn :: "'a \<Rightarrow> 'a gen" where
  "greturn x s = Done x s"

definition graise :: "error \<Rightarrow> 'a gen" where
  "graise e s = Raised e s"

definition gbind :: "'a gen \<Rightarrow> ('a \<Rightarrow> 'b gen) \<Rightarrow> 'b gen" where
  "gbind m f s =
     (case m s of
        Done x s' \<Rightarrow> f x s'
      | NeedMore s' \<Rightarrow> NeedMore s'
      | Raised e s' \<Rightarrow> Raised e s')"

definition available :: "dstream \<Rightarrow> nat" where
  "available s = length (buf s) - pos s"

definition stream_read :: "nat \<Rightarrow> byte list gen" where
  "stream_read n s =
     Done (take n (drop (pos s) (buf s))) (s\<lparr>pos := pos s + min n (available s)\<rparr>)"


definition seek :: "nat \<Rightarrow> unit gen" where
  "seek p s = Done () (s\<lparr>pos := p\<rparr>)"


text \<open>\<^verbatim>\<open>while self.available() < unpackSize: yield DECODE_WAITING_FOR_STREAM\<close>\<close>

function wait_available :: "nat \<Rightarrow> unit gen" where
  "wait_available unpackSize s =
     (if available s < unpackSize then
        (case pending s of
           [] \<Rightarrow> NeedMore s
         | chunk # rest \<Rightarrow> wait_available unpackSize (s\<lparr>buf := buf s @ chunk, pending := rest\<rparr>))
      else Done () s)"
  by pat_completeness auto
termination
  by (relation "measure (\<lambda>(n, s). length (pending s))") auto

declare wait_available.simps [simp del]

text \<open>
  \<^verbatim>\<open>unpackIterator\<close>: the size check against \<^verbatim>\<open>_max_size\<close> (\<^verbatim>\<open>None\<close> and 0 are false in
  Python), the wait, the read of exactly \<^verbatim>\<open>unpackSize\<close> bytes, and \<^verbatim>\<open>struct.unpack\<close>,
  which cannot fail on a chunk of the size of its code. It is given once per type of
  result: an integer, the value of an intrinsic field, or the bytes of \<^verbatim>\<open>"{n}s"\<close>, where
  \<^verbatim>\<open>struct.calcsize\<close> refuses a count above \<^verbatim>\<open>PY_SSIZE_T_MAX\<close> before anything is read.
\<close>

definition exceeds_limit :: "dstream \<Rightarrow> nat \<Rightarrow> bool" where
  "exceeds_limit s unpackSize =
     (case max_size s of None \<Rightarrow> False | Some m \<Rightarrow> m \<noteq> 0 \<and> unpackSize > m)"

definition unpackChunk :: "nat \<Rightarrow> byte list gen" where
  "unpackChunk unpackSize s =
     (if exceeds_limit s unpackSize
      then Raised (Exception (UnpackSizeExceedsLimit unpackSize (GetAttribute (max_size s) 0))) s
      else gbind (wait_available unpackSize) (\<lambda>_. stream_read unpackSize) s)"

definition unpackIterator_int :: "packcode \<Rightarrow> int gen" where
  "unpackIterator_int packCode =
     gbind (unpackChunk (calcsize packCode)) (\<lambda>unpackChunk.
     greturn (struct_unpack_int packCode unpackChunk))"

definition unpackIterator :: "packcode \<Rightarrow> fdata gen" where
  "unpackIterator packCode =
     gbind (unpackChunk (calcsize packCode)) (\<lambda>unpackChunk.
     greturn (struct_unpack packCode unpackChunk))"

definition unpackIterator_s :: "nat \<Rightarrow> byte list gen" where
  "unpackIterator_s n = (if PY_SSIZE_T_MAX < n then graise StructError else unpackChunk n)"

subsection \<open>Decoders\<close>

text \<open>
  A decoder fills the field it is given; the model returns the new content of the data
  slot. \<^verbatim>\<open>try: yield from ... except Exception\<close> lets a yield through and replaces an
  exception.
\<close>

definition try_decode :: "message \<Rightarrow> 'a gen \<Rightarrow> 'a gen" where
  "try_decode msg m s =
     (case m s of
        Done x s' \<Rightarrow> Done x s'
      | NeedMore s' \<Rightarrow> NeedMore s'
      | Raised encodingException s' \<Rightarrow> Raised (PacketEncodingError msg) s')"

definition IntrinsicTypeStandardEncoder_decodeIterator :: "(error + packcode) \<Rightarrow> fdata gen" where
  "IntrinsicTypeStandardEncoder_decodeIterator getPackCode =
     (case getPackCode of Inl e \<Rightarrow> graise e | Inr packCode \<Rightarrow> unpackIterator packCode)"

definition lift_error :: "error + 'a \<Rightarrow> 'a gen" where
  "lift_error m = (case m of Inl e \<Rightarrow> graise e | Inr x \<Rightarrow> greturn x)"

definition StringEncoder_decodeIterator :: "fdata gen" where
  "StringEncoder_decodeIterator =
     gbind (unpackIterator_int Code_H) (\<lambda>strLen.
     gbind (unpackIterator_s (nat strLen)) (\<lambda>strEncoded.
     gbind (lift_error (utf8_decode strEncoded)) (\<lambda>strDecoded.
     greturn (StrData strDecoded))))"

definition BufferEncoder_decodeIterator :: "fdata gen" where
  "BufferEncoder_decodeIterator =
     gbind (unpackIterator_int Code_Q) (\<lambda>bufLen.
     gbind (unpackIterator_s (nat bufLen)) (\<lambda>bufData.
     greturn (BufData bufData)))"

text \<open>
  \<^verbatim>\<open>for i in range(listSize)\<close>: \<open>decode_items\<close> has the number of rounds left, the index
  \<open>i\<close> and the list so far. \<^verbatim>\<open>listType.append(UNSET)\<close> makes a raw item of the declared
  element type, which the top-level decoder then fills.
\<close>

fun decode_items :: "fdata gen \<Rightarrow> nat \<Rightarrow> nat \<Rightarrow> fdata list \<Rightarrow> fdata gen" where
  "decode_items dec 0 i items = greturn (ListData items)"
| "decode_items dec (Suc n) i items =
     gbind (try_decode (ErrorDecodingIndex i) dec) (\<lambda>d.
     decode_items dec n (Suc i) (items @ [d]))"

definition ListEncoder_decodeIterator :: "(ftype \<Rightarrow> fdata gen) \<Rightarrow> ftype \<Rightarrow> fdata gen" where
  "ListEncoder_decodeIterator topDecoder t =
     gbind (unpackIterator_int Code_H) (\<lambda>listSize.
     decode_items (topDecoder t) (nat listSize) 0 [])"

text \<open>
  \<^verbatim>\<open>for i in range(fieldCount)\<close>: the tag, the name under the inverse of the bijection
  (the lookup stands outside the \<^verbatim>\<open>try\<close>, so its failure is not rewrapped), the raw field
  of that name, whose type is the one \<^verbatim>\<open>FIELDS\<close> declares, and the top-level decoder on it.
\<close>

fun decode_fields ::
  "(ftype \<Rightarrow> fdata gen) \<Rightarrow> (string \<times> ftype) list \<Rightarrow> bijection \<Rightarrow> nat
     \<Rightarrow> (string \<times> fdata) list \<Rightarrow> fdata gen" where
  "decode_fields topDecoder fs fieldToTag 0 raw = greturn (GroupData raw)"
| "decode_fields topDecoder fs fieldToTag (Suc n) raw =
     gbind (unpackIterator_int Code_H) (\<lambda>fieldID.
     gbind (lift_error (inverse_getitem fieldToTag fieldID)) (\<lambda>fieldName.
       (case map_of fs fieldName of
          None \<Rightarrow> graise AttributeError
        | Some fieldType \<Rightarrow>
            gbind (try_decode (ErrorDecodingField fieldName) (topDecoder fieldType)) (\<lambda>d.
            decode_fields topDecoder fs fieldToTag n (setrawfield fieldName d raw)))))"

definition PacketFieldsEncoder_decodeIterator ::
  "(ftype \<Rightarrow> fdata gen) \<Rightarrow> (string \<times> ftype) list \<Rightarrow> fdata gen" where
  "PacketFieldsEncoder_decodeIterator topDecoder fs =
     gbind (lift_error (processFields fs)) (\<lambda>fieldToTag.
     gbind (unpackIterator_int Code_H) (\<lambda>fieldCount.
     decode_fields topDecoder fs fieldToTag (nat fieldCount) (initializeData fs)))"

lemma ListEncoder_decodeIterator_cong [fundef_cong]:
  "t = t' \<Longrightarrow> tp t' = tp' t' \<Longrightarrow> ListEncoder_decodeIterator tp t = ListEncoder_decodeIterator tp' t'"
  by (simp add: ListEncoder_decodeIterator_def)

lemma decode_fields_cong:
  assumes "\<And>t. t \<in> snd ` set fs \<Longrightarrow> tp t = tp' t"
  shows "decode_fields tp fs b n raw = decode_fields tp' fs b n raw"
proof (induction n arbitrary: raw)
  case 0
  show ?case by simp
next
  case (Suc n)
  have eq: "tp t = tp' t" if "map_of fs fieldName = Some t" for fieldName t
    using that by (intro assms) (force dest: map_of_SomeD)
  have "(case map_of fs fieldName of
           None \<Rightarrow> graise AttributeError
         | Some fieldType \<Rightarrow>
             gbind (try_decode (ErrorDecodingField fieldName) (tp fieldType)) (\<lambda>d.
             decode_fields tp fs b n (setrawfield fieldName d raw)))
      = (case map_of fs fieldName of
           None \<Rightarrow> graise AttributeError
         | Some fieldType \<Rightarrow>
             gbind (try_decode (ErrorDecodingField fieldName) (tp' fieldType)) (\<lambda>d.
             decode_fields tp' fs b n (setrawfield fieldName d raw)))" for fieldName
    by (cases "map_of fs fieldName") (simp_all add: eq Suc.IH)
  then show ?case by simp
qed

lemma PacketFieldsEncoder_decodeIterator_cong [fundef_cong]:
  assumes "fs = fs'" and "\<And>t. t \<in> snd ` set fs' \<Longrightarrow> tp t = tp' t"
  shows "PacketFieldsEncoder_decodeIterator tp fs = PacketFieldsEncoder_decodeIterator tp' fs'"
  unfolding PacketFieldsEncoder_decodeIterator_def assms(1)
  using decode_fields_cong [of fs' tp tp', OF assms(2)] by simp

text \<open>
  \<^verbatim>\<open>PlaygroundStandardPacketEncoder.decodeIterator\<close>, and \<^verbatim>\<open>decode\<close>, which resumes the
  generator until it is done: where the generator stays suspended, \<^verbatim>\<open>decode\<close> does not
  return (\<open>None\<close>).
\<close>

fun decodeIterator :: "ftype \<Rightarrow> fdata gen" where
  "decodeIterator (UINT_field a) =
     IntrinsicTypeStandardEncoder_decodeIterator
       (UintEncoder_getPackCode UintEncoder_SIZE_TO_PACKCODE a)"
| "decodeIterator (INT_field a) =
     IntrinsicTypeStandardEncoder_decodeIterator
       (UintEncoder_getPackCode IntEncoder_SIZE_TO_PACKCODE a)"
| "decodeIterator (BOOL_field a) =
     IntrinsicTypeStandardEncoder_decodeIterator BoolEncoder_getPackCode"
| "decodeIterator (STRING_field a) = StringEncoder_decodeIterator"
| "decodeIterator (BUFFER_field a) = BufferEncoder_decodeIterator"
| "decodeIterator (LIST_field a t) = ListEncoder_decodeIterator decodeIterator t"
| "decodeIterator (GROUP_field a fs) = PacketFieldsEncoder_decodeIterator decodeIterator fs"

definition decode :: "ftype \<Rightarrow> dstream \<Rightarrow> (error + fdata) option" where
  "decode fieldType s =
     (case decodeIterator fieldType s of
        Done d s' \<Rightarrow> Some (Inr d)
      | Raised e s' \<Rightarrow> Some (Inl e)
      | NeedMore s' \<Rightarrow> None)"

section \<open>The framed packet\<close>

text \<open>
  Modelled from the spec: a PACKET value carries its definition identifier and version
  (both \<^verbatim>\<open>str\<close>) and an inner group, \<^verbatim>\<open>FIELDS\<close> with one raw field per name; the definition
  registry of the base packet type maps an identifier and a parsed version to a packet
  type or to nothing. The classes (\<^verbatim>\<open>NamedPacketType\<close>, \<^verbatim>\<open>Version\<close>, the definitions store)
  are not in the encoder module: parsing a version and the lookup are parameters of the
  decoder, and a packet type is given by the fresh instance \<^verbatim>\<open>packetType()\<close>.
\<close>

record packet =
  DEFINITION_IDENTIFIER :: pystr
  DEFINITION_VERSION :: pystr
  FIELDS :: "(string \<times> ftype) list"
  rawfields :: "(string \<times> fdata) list"


subsection \<open>Encoding a frame\<close>

text \<open>
  The stream of the encoder is written at its position, as \<^verbatim>\<open>io.BytesIO\<close> does: bytes
  there are replaced, the buffer grows as needed, a gap before the position is filled
  with zero bytes.
\<close>

definition stream_write :: "byte list \<Rightarrow> dstream \<Rightarrow> dstream" where
  "stream_write bs s =
     s\<lparr>buf := take (pos s) (buf s) @ replicate (pos s - length (buf s)) 0 @ bs
               @ drop (pos s + length bs) (buf s),
       pos := pos s + length bs\<rparr>"

definition LENGTH_MASK :: int where
  "LENGTH_MASK = 0xFFFFFFFFFFFFFFFF"

definition PacketEncoder_encode :: "dstream \<Rightarrow> packet \<Rightarrow> error + dstream" where
  "PacketEncoder_encode stream packet =
     (let packetStartPosition = pos stream in
      ebind (utf8_encode (DEFINITION_IDENTIFIER packet)) (\<lambda>packetDefEncoded.
      ebind (utf8_encode (DEFINITION_VERSION packet)) (\<lambda>packetVerEncoded.
      ebind (struct_pack_int Code_Q 0) (\<lambda>zero.
      ebind (struct_pack_int Code_B (int (length packetDefEncoded))) (\<lambda>defLen.
      ebind (struct_pack_int Code_B (int (length packetVerEncoded))) (\<lambda>verLen.
      let stream1 = stream_write (zero @ zero @ defLen @ packetDefEncoded @ verLen @ packetVerEncoded)
                      stream in
      ebind (PacketFieldsEncoder_encode encode (FIELDS packet) (GroupData (rawfields packet)))
        (\<lambda>body.
      let stream2 = stream_write body stream1;
          packetEndPosition = pos stream2;
          packetLength = int packetEndPosition - int packetStartPosition;
          stream3 = stream2\<lparr>pos := packetStartPosition\<rparr> in
      ebind (struct_pack_int Code_Q packetLength) (\<lambda>lengthBytes.
      let stream4 = stream_write lengthBytes stream3 in
      ebind (struct_pack_int Code_Q (packetLength XOR LENGTH_MASK)) (\<lambda>checkBytes.
      let stream5 = stream_write checkBytes stream4 in
      Inr (stream5\<lparr>pos := packetEndPosition\<rparr>))))))))))"

subsection \<open>Decoding a frame, with resynchronisation\<close>

lemma gbind_cong [fundef_cong]:
  assumes "m s = m' s'" and "s = s'" and "\<And>x s1. m' s' = Done x s1 \<Longrightarrow> f x s1 = f' x s1"
  shows "gbind m f s = gbind m' f' s'"
  using assms by (auto simp: gbind_def split: outcome.splits)










section \<open>Notions the claims are stated with\<close>

text \<open>
  \<open>stream_of bs\<close> is a fresh stream over \<open>bs\<close> at position 0 that nobody writes to
  (\<^verbatim>\<open>io.BytesIO(bs)\<close>). \<open>holds s bs\<close>: the bytes \<open>bs\<close> stand in the stream at its position.
  \<open>representable packCode v\<close>: the range of integers that \<^verbatim>\<open>struct\<close> accepts for the code.
\<close>

definition stream_of :: "byte list \<Rightarrow> dstream" where
  "stream_of bs = \<lparr>buf = bs, pos = 0, max_size = None, pending = []\<rparr>"

definition holds :: "dstream \<Rightarrow> byte list \<Rightarrow> bool" where
  "holds s bs = (pos s + length bs \<le> length (buf s) \<and> take (length bs) (drop (pos s) (buf s)) = bs)"

definition advance :: "nat \<Rightarrow> dstream \<Rightarrow> dstream" where
  "advance n s = s\<lparr>pos := pos s + n\<rparr>"

definition representable :: "packcode \<Rightarrow> int \<Rightarrow> bool" where
  "representable code v =
     (if is_signed code
      then - (2 ^ (8 * calcsize code - 1)) \<le> v \<and> v < 2 ^ (8 * calcsize code - 1)
      else 0 \<le> v \<and> v < 2 ^ (8 * calcsize code))"

text \<open>
  \<open>least_unused tag used\<close>: \<open>tag\<close> is the smallest nonnegative integer outside \<open>used\<close>.
  \<open>assigned fieldType tag used\<close>: the tag a field gets when the tags \<open>used\<close> are taken:
  its \<open>ExplicitTag\<close> when it has one, the smallest unused nonnegative integer otherwise.
\<close>

definition least_unused :: "int \<Rightarrow> int set \<Rightarrow> bool" where
  "least_unused tag used = (0 \<le> tag \<and> tag \<notin> used \<and> (\<forall>k. 0 \<le> k \<and> k < tag \<longrightarrow> k \<in> used))"

definition assigned :: "ftype \<Rightarrow> int \<Rightarrow> int set \<Rightarrow> bool" where
  "assigned fieldType tag used =
     (case ExplicitTag (attrs_of fieldType) of
        Some e \<Rightarrow> tag = e
      | None \<Rightarrow> least_unused tag used)"

text \<open>
  \<open>tag_assignment fs b\<close>: \<open>b\<close> gives the declared names of \<open>fs\<close>, in declaration order and
  each once, distinct tags, every field the tag \<open>assigned\<close> to it when the tags of the fields
  before it are taken.
\<close>

definition tag_assignment :: "(string \<times> ftype) list \<Rightarrow> bijection \<Rightarrow> bool" where
  "tag_assignment fs b =
     (map fst b = map fst fs \<and> distinct (map fst fs) \<and> distinct (map snd b)
      \<and> (\<forall>i<length fs. assigned (snd (fs ! i)) (snd (b ! i)) (snd ` set (take i b))))"







text \<open>
  \<open>written s s'\<close>: the bytes of the stream between the position of \<open>s\<close> and the position
  of \<open>s'\<close>, what an encoder called at \<open>s\<close> and returning at \<open>s'\<close> has written.
\<close>

definition written :: "dstream \<Rightarrow> dstream \<Rightarrow> byte list" where
  "written s s' = take (pos s' - pos s) (drop (pos s) (buf s'))"



section \<open>Facts about the scalar encoders\<close>

lemma length_be_bytes [simp]: "length (be_bytes n v) = n"
  by (induction n arbitrary: v) auto

lemma struct_pack_int_length:
  "struct_pack_int code v = Inr bs \<Longrightarrow> length bs = calcsize code"
  by (auto simp: struct_pack_int_def Let_def split: if_splits)

lemma struct_pack_length:
  "struct_pack code d = Inr bs \<Longrightarrow> length bs = calcsize code"
  by (auto simp: struct_pack_def split: if_splits fdata.splits dest: struct_pack_int_length)

lemma maxValueToPackCode_Uint:
  "maxValueToPackCode UintEncoder_SIZE_TO_PACKCODE m =
     (if m < 2 ^ 8 then Inr Code_B else if m < 2 ^ 16 then Inr Code_H
      else if m < 2 ^ 32 then Inr Code_I else if m < 2 ^ 64 then Inr Code_Q
      else Inl (PacketEncodingError (CannotEncodeUintOfSize m)))"
  by (simp add: maxValueToPackCode_def UintEncoder_SIZE_TO_PACKCODE_def)

lemma maxValueToPackCode_Int:
  "maxValueToPackCode IntEncoder_SIZE_TO_PACKCODE m =
     (if m < 2 ^ 8 then Inr Code_b else if m < 2 ^ 16 then Inr Code_h
      else if m < 2 ^ 32 then Inr Code_i else if m < 2 ^ 64 then Inr Code_q
      else Inl (PacketEncodingError (CannotEncodeUintOfSize m)))"
  by (simp add: maxValueToPackCode_def IntEncoder_SIZE_TO_PACKCODE_def)

lemma encode_int_field:
  assumes "t = UINT_field a \<or> t = INT_field a"
  shows "encode t d =
     ebind (maxValueToPackCode
              (if t = UINT_field a then UintEncoder_SIZE_TO_PACKCODE else IntEncoder_SIZE_TO_PACKCODE)
              (GetAttribute (MaxValue a) DEFAULT_MAXVALUE))
           (\<lambda>packCode. struct_pack packCode d)"
  using assms
  by (auto simp: IntrinsicTypeStandardEncoder_encode_def UintEncoder_getPackCode_def)

lemma int_code_cases:
  assumes "maxValueToPackCode tbl m = Inr code"
    and "tbl = UintEncoder_SIZE_TO_PACKCODE \<or> tbl = IntEncoder_SIZE_TO_PACKCODE"
  shows "(m < 2 ^ 8 \<and> calcsize code = 1) \<or> (2 ^ 8 \<le> m \<and> m < 2 ^ 16 \<and> calcsize code = 2)
      \<or> (2 ^ 16 \<le> m \<and> m < 2 ^ 32 \<and> calcsize code = 4)
      \<or> (2 ^ 32 \<le> m \<and> m < 2 ^ 64 \<and> calcsize code = 8)"
proof -
  from assms(2) show ?thesis
  proof
    assume "tbl = UintEncoder_SIZE_TO_PACKCODE"
    with assms(1) show ?thesis
      by (simp add: maxValueToPackCode_Uint split: if_splits)
  next
    assume "tbl = IntEncoder_SIZE_TO_PACKCODE"
    with assms(1) show ?thesis
      by (simp add: maxValueToPackCode_Int split: if_splits)
  qed
qed


lemma int_code_fails:
  assumes "2 ^ 64 \<le> m"
    and "tbl = UintEncoder_SIZE_TO_PACKCODE \<or> tbl = IntEncoder_SIZE_TO_PACKCODE"
  shows "maxValueToPackCode tbl m = Inl (PacketEncodingError (CannotEncodeUintOfSize m))"
  using assms by (auto simp: maxValueToPackCode_Uint maxValueToPackCode_Int)

lemma int_code_succeeds:
  assumes "m < 2 ^ 64"
    and "tbl = UintEncoder_SIZE_TO_PACKCODE \<or> tbl = IntEncoder_SIZE_TO_PACKCODE"
  shows "\<exists>code. maxValueToPackCode tbl m = Inr code"
  using assms by (auto simp: maxValueToPackCode_Uint maxValueToPackCode_Int)

lemma struct_pack_int_zero: "\<exists>bs. struct_pack_int code 0 = Inr bs"
  by (simp add: struct_pack_int_def Let_def)

lemma be_bytes_1: "be_bytes 1 v = [word_of_nat v]"
  by simp

lemma be_bytes_2: "be_bytes 2 v = [word_of_nat (v div 256), word_of_nat v]"
proof -
  have e: "(2::nat) = Suc (Suc 0)" by simp
  show ?thesis unfolding e by simp
qed

lemma be_bytes_4:
  "be_bytes 4 v = [word_of_nat (v div 256 div 256 div 256), word_of_nat (v div 256 div 256),
                   word_of_nat (v div 256), word_of_nat v]"
proof -
  have e: "(4::nat) = Suc (Suc (Suc (Suc 0)))" by simp
  show ?thesis unfolding e by simp
qed

lemma be_bytes_8:
  "be_bytes 8 v =
     [word_of_nat (v div 256 div 256 div 256 div 256 div 256 div 256 div 256),
      word_of_nat (v div 256 div 256 div 256 div 256 div 256 div 256),
      word_of_nat (v div 256 div 256 div 256 div 256 div 256),
      word_of_nat (v div 256 div 256 div 256 div 256),
      word_of_nat (v div 256 div 256 div 256), word_of_nat (v div 256 div 256),
      word_of_nat (v div 256), word_of_nat v]"
proof -
  have e: "(8::nat) = Suc (Suc (Suc (Suc (Suc (Suc (Suc (Suc 0)))))))" by simp
  show ?thesis unfolding e by simp
qed

lemmas be_bytes_numeral = be_bytes_1 be_bytes_2 be_bytes_4 be_bytes_8

lemmas encode_scalar_defs =
  IntrinsicTypeStandardEncoder_encode_def UintEncoder_getPackCode_def
  maxValueToPackCode_Uint maxValueToPackCode_Int GetAttribute_def ebind_def struct_pack_def
  struct_pack_int_def be_bytes_numeral

section \<open>Facts about the stream and the scalar decoders\<close>

lemma be_nat_snoc: "be_nat (bs @ [x]) = be_nat bs * 256 + unat x"
  by (simp add: be_nat_def)

lemma unat_byte_of_nat: "unat (word_of_nat v :: byte) = v mod 256"
  by (simp add: unat_of_nat)

lemma be_nat_be_bytes: "v < 256 ^ n \<Longrightarrow> be_nat (be_bytes n v) = v"
proof (induction n arbitrary: v)
  case 0
  then show ?case by (simp add: be_nat_def)
next
  case (Suc n)
  from Suc.prems have "v div 256 < 256 ^ n"
    by (simp add: less_mult_imp_div_less mult.commute)
  then have "be_nat (be_bytes n (v div 256)) = v div 256" by (rule Suc.IH)
  then show ?case by (simp add: be_nat_snoc unat_byte_of_nat)
qed

lemma pow256: "(256::nat) ^ n = 2 ^ (8 * n)"
  by (simp add: power_mult)

lemma struct_unpack_pack_int:
  assumes "struct_pack_int code v = Inr bs"
  shows "struct_unpack_int code bs = v"
proof (cases "is_signed code")
  case False
  with assms have v: "0 \<le> v" "v < 2 ^ (8 * calcsize code)" and bs: "bs = be_bytes (calcsize code) (nat v)"
    by (auto simp: struct_pack_int_def Let_def split: if_splits)
  from v have "nat v < 256 ^ calcsize code"
    by (simp add: pow256 nat_less_iff)
  then have "be_nat bs = nat v" unfolding bs by (rule be_nat_be_bytes)
  with False v show ?thesis by (simp add: struct_unpack_int_def Let_def)
next
  case True
  define n where "n = calcsize code"
  have npos: "0 < n" by (cases code) (simp_all add: n_def)
  from True assms have v: "- (2 ^ (8 * n - 1)) \<le> v" "v < 2 ^ (8 * n - 1)"
    and bs: "bs = be_bytes n (nat (v mod 2 ^ (8 * n)))"
    by (auto simp: struct_pack_int_def Let_def n_def split: if_splits)
  have half: "(2::int) ^ (8 * n) = 2 * 2 ^ (8 * n - 1)"
    using npos by (metis Suc_pred' mult_pos_pos power_Suc zero_less_numeral)
  have "nat (v mod 2 ^ (8 * n)) < 256 ^ n"
    by (simp add: pow256 nat_less_iff)
  then have bn: "int (be_nat bs) = v mod 2 ^ (8 * n)"
    unfolding bs by (simp add: be_nat_be_bytes)
  show ?thesis
  proof (cases "0 \<le> v")
    case nonneg: True
    with v half have "v mod 2 ^ (8 * n) = v" by simp
    with bn v True show ?thesis
      by (simp add: struct_unpack_int_def Let_def n_def [symmetric])
  next
    case neg: False
    with v half have "v mod 2 ^ (8 * n) = v + 2 ^ (8 * n)"
      by (smt (verit) mod_add_self2 mod_pos_pos_trivial)
    with bn v True neg half show ?thesis
      by (simp add: struct_unpack_int_def Let_def n_def [symmetric])
  qed
qed


lemma exceeds_limit_mono:
  "\<not> exceeds_limit s n \<Longrightarrow> k \<le> n \<Longrightarrow> \<not> exceeds_limit s k"
  by (auto simp: exceeds_limit_def split: option.splits)

lemma exceeds_limit_advance [simp]: "exceeds_limit (advance n s) k = exceeds_limit s k"
  by (simp add: exceeds_limit_def advance_def)

lemma advance_advance [simp]: "advance n (advance m s) = advance (m + n) s"
  by (simp add: advance_def add.assoc)

lemma advance_0 [simp]: "advance 0 s = s"
  by (simp add: advance_def)

lemma unpackChunk_holds:
  assumes "holds s bs" and "\<not> exceeds_limit s (length bs)"
  shows "unpackChunk (length bs) s = Done bs (advance (length bs) s)"
proof -
  from assms(1) have av: "\<not> available s < length bs"
    unfolding holds_def available_def by linarith
  then have w: "wait_available (length bs) s = Done () s"
    by (simp add: wait_available.simps)
  from assms(1) have "min (length bs) (available s) = length bs"
    unfolding holds_def available_def by linarith
  with assms w show ?thesis
    by (simp add: unpackChunk_def gbind_def stream_read_def holds_def advance_def)
qed


lemma struct_unpack_pack:
  assumes "struct_pack code d = Inr bs"
  shows "struct_unpack code bs = d"
proof (cases "code = Code_bool")
  case True
  with assms show ?thesis
    by (auto simp: struct_pack_def struct_unpack_def be_nat_def split: fdata.splits if_splits)
next
  case False
  with assms obtain v where "d = IntData v" "struct_pack_int code v = Inr bs"
    by (auto simp: struct_pack_def split: fdata.splits)
  with False show ?thesis
    by (simp add: struct_unpack_def struct_unpack_pack_int)
qed

lemma unpackIterator_holds:
  assumes "struct_pack code d = Inr bs" and "holds s bs" and "\<not> exceeds_limit s (length bs)"
  shows "unpackIterator code s = Done d (advance (length bs) s)"
proof -
  from assms(1) have len: "calcsize code = length bs"
    by (simp add: struct_pack_length)
  show ?thesis
    unfolding unpackIterator_def len
    by (simp add: gbind_def unpackChunk_holds [OF assms(2,3)] greturn_def
        struct_unpack_pack [OF assms(1)])
qed

lemma Intrinsic_roundtrip:
  assumes "IntrinsicTypeStandardEncoder_encode getPackCode d = Inr bs"
    and "holds s bs" and "\<not> exceeds_limit s (length bs)"
  shows "IntrinsicTypeStandardEncoder_decodeIterator getPackCode s = Done d (advance (length bs) s)"
proof -
  from assms(1) obtain code where c: "getPackCode = Inr code" and p: "struct_pack code d = Inr bs"
    by (auto simp: IntrinsicTypeStandardEncoder_encode_def ebind_def split: sum.splits)
  show ?thesis
    by (simp add: IntrinsicTypeStandardEncoder_decodeIterator_def c
        unpackIterator_holds [OF p assms(2,3)])
qed

lemma holds_stream_of [simp]: "holds (stream_of bs) bs"
  by (simp add: holds_def stream_of_def)

lemma exceeds_limit_stream_of [simp]: "\<not> exceeds_limit (stream_of bs) n"
  by (simp add: exceeds_limit_def stream_of_def)

lemma struct_pack_int_representable:
  "struct_pack_int code v =
     (if representable code v
      then Inr (be_bytes (calcsize code) (nat (if is_signed code then v mod 2 ^ (8 * calcsize code) else v)))
      else Inl StructError)"
  by (simp add: struct_pack_int_def representable_def Let_def)

section \<open>Facts about the string encoder\<close>

lemma utf8_encode_nat_ascii:
  "\<forall>c \<in> set s. c < 128 \<Longrightarrow> utf8_encode_nat s = Inr s"
  by (induction s) (simp_all add: utf8_encode_cp_def ebind_def)

lemma utf8_encode_ascii:
  "\<forall>c \<in> set s. c < 128 \<Longrightarrow> utf8_encode s = Inr (map word_of_nat s)"
  by (simp add: utf8_encode_def utf8_encode_nat_ascii ebind_def)



lemma struct_pack_s_exact [simp]: "struct_pack_s (length bs) bs = bs"
  by (simp add: struct_pack_s_def)

lemma StringEncoder_encode_ascii:
  assumes "\<forall>c \<in> set s. c < 128" and "length s < 65536"
  shows "StringEncoder_encode (StrData s) = Inr (be_bytes 2 (length s) @ map word_of_nat s)"
proof -
  have "struct_pack_s (length s) (map word_of_nat s :: byte list) = map word_of_nat s"
    using struct_pack_s_exact [of "map word_of_nat s :: byte list"] by simp
  with assms show ?thesis
    by (simp add: StringEncoder_encode_def StringEncoder_MAX_LENGTH_def utf8_encode_ascii
        ebind_def struct_pack_int_def Let_def)
qed

lemmas decode_eval_defs =
  decode_def StringEncoder_decodeIterator_def BufferEncoder_decodeIterator_def
  unpackIterator_int_def unpackIterator_s_def unpackIterator_def unpackChunk_def
  exceeds_limit_def gbind_def greturn_def graise_def lift_error_def wait_available.simps
  available_def stream_read_def stream_of_def struct_unpack_int_def struct_unpack_def
  be_nat_def utf8_decode_def is_cont_def Let_def PY_SSIZE_T_MAX_def





section \<open>Facts about the tag assignment\<close>

lemma skip_used_props:
  "\<not> inverse_contains b (skip_used a b) \<and> a \<le> skip_used a b
   \<and> (\<forall>k. a \<le> k \<and> k < skip_used a b \<longrightarrow> k \<in> snd ` set b)"
proof (induction a b rule: skip_used.induct)
  case (1 autoTag b)
  show ?case
  proof (cases "inverse_contains b autoTag")
    case True
    then have eq: "skip_used autoTag b = skip_used (autoTag + 1) b"
      by (subst skip_used.simps) simp
    define r where "r = skip_used (autoTag + 1) b"
    from "1.IH" [OF True] have ih: "\<not> inverse_contains b r" "autoTag + 1 \<le> r"
      "\<And>k. autoTag + 1 \<le> k \<Longrightarrow> k < r \<Longrightarrow> k \<in> snd ` set b"
      by (simp_all add: r_def)
    have "k \<in> snd ` set b" if "autoTag \<le> k" "k < r" for k
    proof (cases "k = autoTag")
      case True
      with \<open>inverse_contains b autoTag\<close> show ?thesis by (simp add: inverse_contains_def)
    next
      case False
      with that have "autoTag + 1 \<le> k" by simp
      with that ih(3) show ?thesis by blast
    qed
    with ih(1,2) show ?thesis unfolding eq r_def [symmetric] by simp
  next
    case False
    then have "skip_used autoTag b = autoTag"
      by (subst skip_used.simps) simp
    with False show ?thesis by auto
  qed
qed

lemma processFields_loop_props:
  assumes "processFields_loop fs a b = Inr b'"
    and "0 \<le> a" and "\<forall>k. 0 \<le> k \<and> k < a \<longrightarrow> k \<in> snd ` set b"
    and "distinct (map fst b)" and "distinct (map snd b)"
  shows "\<exists>ext. b' = b @ ext \<and> map fst ext = map fst fs
           \<and> distinct (map fst b') \<and> distinct (map snd b')
           \<and> (\<forall>i<length fs. assigned (snd (fs ! i)) (snd (ext ! i))
                                (snd ` set b \<union> snd ` set (take i ext)))"
  using assms
proof (induction fs arbitrary: a b)
  case Nil
  then show ?case by simp
next
  case (Cons f rest)
  obtain n t where f: "f = (n, t)" by (cases f)
  from Cons.prems(1) have fresh: "n \<notin> fst ` set b"
    by (auto simp: f bij_contains_def split: if_splits)
  show ?case
  proof (cases "ExplicitTag (attrs_of t)")
    case (Some e)
    with Cons.prems(1) fresh have e: "e \<notin> snd ` set b"
      and rec: "processFields_loop rest a (b @ [(n, e)]) = Inr b'"
      by (auto simp: f bij_contains_def inverse_contains_def split: if_splits)
    have "\<exists>ext. b' = (b @ [(n, e)]) @ ext \<and> map fst ext = map fst rest
           \<and> distinct (map fst b') \<and> distinct (map snd b')
           \<and> (\<forall>i<length rest. assigned (snd (rest ! i)) (snd (ext ! i))
                                (snd ` set (b @ [(n, e)]) \<union> snd ` set (take i ext)))"
      using rec Cons.prems(2-5) fresh e by (intro Cons.IH [of a "b @ [(n, e)]"]) auto
    then obtain ext where ext: "b' = (b @ [(n, e)]) @ ext" "map fst ext = map fst rest"
      "distinct (map fst b')" "distinct (map snd b')"
      and asg: "\<And>i. i < length rest \<Longrightarrow> assigned (snd (rest ! i)) (snd (ext ! i))
                                (snd ` set (b @ [(n, e)]) \<union> snd ` set (take i ext))"
      by blast
    have "assigned (snd ((f # rest) ! i)) (snd (((n, e) # ext) ! i))
            (snd ` set b \<union> snd ` set (take i ((n, e) # ext)))" if "i < length (f # rest)" for i
    proof (cases i)
      case 0
      then show ?thesis by (simp add: f assigned_def Some)
    next
      case (Suc j)
      with that have "j < length rest" by simp
      from asg [OF this] show ?thesis
        by (simp add: Suc Un_commute Un_left_commute insert_commute)
    qed
    with ext show ?thesis
      by (intro exI [of _ "(n, e) # ext"]) (simp add: f)
  next
    case None
    define a' where "a' = skip_used a b"
    from skip_used_props [of b a] have a': "a' \<notin> snd ` set b" "a \<le> a'"
      "\<And>k. a \<le> k \<Longrightarrow> k < a' \<Longrightarrow> k \<in> snd ` set b"
      by (auto simp: a'_def inverse_contains_def)
    from Cons.prems(1) fresh None have rec: "processFields_loop rest a' (b @ [(n, a')]) = Inr b'"
      by (auto simp: f bij_contains_def a'_def Let_def split: if_splits)
    have below: "k \<in> snd ` set b" if "0 \<le> k" "k < a'" for k
    proof (cases "k < a")
      case True
      with that Cons.prems(3) show ?thesis by blast
    next
      case False
      with that a'(3) [of k] show ?thesis by simp
    qed
    have "\<exists>ext. b' = (b @ [(n, a')]) @ ext \<and> map fst ext = map fst rest
           \<and> distinct (map fst b') \<and> distinct (map snd b')
           \<and> (\<forall>i<length rest. assigned (snd (rest ! i)) (snd (ext ! i))
                                (snd ` set (b @ [(n, a')]) \<union> snd ` set (take i ext)))"
      using rec Cons.prems(2,4,5) fresh a'(1,2) below by (intro Cons.IH [of a' "b @ [(n, a')]"]) auto
    then obtain ext where ext: "b' = (b @ [(n, a')]) @ ext" "map fst ext = map fst rest"
      "distinct (map fst b')" "distinct (map snd b')"
      and asg: "\<And>i. i < length rest \<Longrightarrow> assigned (snd (rest ! i)) (snd (ext ! i))
                                (snd ` set (b @ [(n, a')]) \<union> snd ` set (take i ext))"
      by blast
    have "assigned (snd ((f # rest) ! i)) (snd (((n, a') # ext) ! i))
            (snd ` set b \<union> snd ` set (take i ((n, a') # ext)))" if "i < length (f # rest)" for i
    proof (cases i)
      case 0
      from a'(1,2) Cons.prems(2) below show ?thesis
        by (simp add: 0 f assigned_def None least_unused_def)
    next
      case (Suc j)
      with that have "j < length rest" by simp
      from asg [OF this] show ?thesis
        by (simp add: Suc Un_commute Un_left_commute insert_commute)
    qed
    with ext show ?thesis
      by (intro exI [of _ "(n, a') # ext"]) (simp add: f)
  qed
qed

lemma processFields_props:
  assumes "processFields fs = Inr b"
  shows "map fst b = map fst fs" and "distinct (map fst fs)" and "distinct (map snd b)"
    and "\<forall>i<length fs. assigned (snd (fs ! i)) (snd (b ! i)) (snd ` set (take i b))"
    and "length b = length fs"
proof -
  from processFields_loop_props [of fs 0 "[]" b] assms
  have a: "map fst b = map fst fs" and b: "distinct (map fst b)" and c: "distinct (map snd b)"
    and d: "\<forall>i<length fs. assigned (snd (fs ! i)) (snd (b ! i)) (snd ` set (take i b))"
    by (auto simp: processFields_def)
  show "map fst b = map fst fs" by (rule a)
  from b show "distinct (map fst fs)" unfolding a .
  show "distinct (map snd b)" by (rule c)
  show "\<forall>i<length fs. assigned (snd (fs ! i)) (snd (b ! i)) (snd ` set (take i b))" by (rule d)
  from a show "length b = length fs" by (metis length_map)
qed

lemma processFields_loop_error:
  "processFields_loop fs a b = Inl e \<Longrightarrow>
     e = Exception DuplicateField \<or> e = Exception DuplicateExplicitTag"
  by (induction fs arbitrary: a b) (auto simp: Let_def split: if_splits option.splits)

lemma bijection_inverse:
  assumes "distinct (map fst b)" and "distinct (map snd b)"
  shows "bij_getitem b n = Inr tag \<longleftrightarrow> inverse_getitem b tag = Inr n"
proof -
  have sw: "map fst (map (\<lambda>(n, t). (t, n)) b) = map snd b"
    by (induction b) auto
  have "map_of b n = Some tag \<longleftrightarrow> (n, tag) \<in> set b"
    using assms(1) by (simp add: map_of_eq_Some_iff)
  moreover have "map_of (map (\<lambda>(n, t). (t, n)) b) tag = Some n \<longleftrightarrow> (tag, n) \<in> set (map (\<lambda>(n, t). (t, n)) b)"
    using assms(2) sw by (subst map_of_eq_Some_iff) (simp_all del: map_map)
  moreover have "(tag, n) \<in> set (map (\<lambda>(n, t). (t, n)) b) \<longleftrightarrow> (n, tag) \<in> set b"
    by force
  ultimately show ?thesis
    by (auto simp: bij_getitem_def inverse_getitem_def split: option.splits)
qed

text \<open>The loop finds every tag assignment: it fails only where there is none.\<close>

lemma least_unused_unique:
  "least_unused t used \<Longrightarrow> least_unused t' used \<Longrightarrow> t = t'"
  unfolding least_unused_def by (metis linorder_neqE_linordered_idom)

lemma skip_used_least:
  assumes "0 \<le> a" and "\<forall>k. 0 \<le> k \<and> k < a \<longrightarrow> k \<in> snd ` set b"
  shows "least_unused (skip_used a b) (snd ` set b)"
proof -
  define r where "r = skip_used a b"
  from skip_used_props [of b a] have 1: "r \<notin> snd ` set b" and 2: "a \<le> r"
    and 3: "\<And>k. a \<le> k \<Longrightarrow> k < r \<Longrightarrow> k \<in> snd ` set b"
    by (simp_all add: r_def inverse_contains_def)
  have "k \<in> snd ` set b" if "0 \<le> k" "k < r" for k
  proof (cases "k < a")
    case True
    with that assms(2) show ?thesis by blast
  next
    case False
    with that 3 show ?thesis by simp
  qed
  with 1 2 assms(1) show ?thesis
    unfolding least_unused_def r_def [symmetric] by auto
qed

lemma processFields_loop_complete:
  assumes "map fst ext = map fst fs"
    and "distinct (map fst (b @ ext))" and "distinct (map snd (b @ ext))"
    and "\<forall>i<length fs. assigned (snd (fs ! i)) (snd (ext ! i))
                                (snd ` set b \<union> snd ` set (take i ext))"
    and "0 \<le> a" and "\<forall>k. 0 \<le> k \<and> k < a \<longrightarrow> k \<in> snd ` set b"
  shows "processFields_loop fs a b = Inr (b @ ext)"
  using assms
proof (induction fs arbitrary: a b ext)
  case Nil
  then show ?case by simp
next
  case (Cons f rest)
  obtain n t where f: "f = (n, t)" by (cases f)
  from Cons.prems(1) obtain x ext' where ext: "ext = x # ext'" by (cases ext) auto
  obtain n' tag where x: "x = (n', tag)" by (cases x)
  from Cons.prems(1) have n': "n' = n" and names: "map fst ext' = map fst rest"
    by (simp_all add: ext x f)
  from Cons.prems(2) have fresh: "n \<notin> fst ` set b"
    by (auto simp: ext x n')
  from Cons.prems(3) have unused: "tag \<notin> snd ` set b"
    by (auto simp: ext x)
  from Cons.prems(4) have a0: "assigned t tag (snd ` set b)"
    by (auto simp: ext x f dest: spec [of _ 0])
  have rest_assigned: "\<forall>i<length rest. assigned (snd (rest ! i)) (snd (ext' ! i))
      (snd ` set (b @ [(n, tag)]) \<union> snd ` set (take i ext'))"
  proof (intro allI impI)
    fix i assume i: "i < length rest"
    from Cons.prems(4) i have "assigned (snd ((f # rest) ! Suc i)) (snd (ext ! Suc i))
        (snd ` set b \<union> snd ` set (take (Suc i) ext))"
      by (auto dest: spec [of _ "Suc i"])
    moreover have "snd ` set b \<union> snd ` set (take (Suc i) ext)
        = snd ` set (b @ [(n, tag)]) \<union> snd ` set (take i ext')"
      by (auto simp: ext x)
    ultimately show "assigned (snd (rest ! i)) (snd (ext' ! i))
        (snd ` set (b @ [(n, tag)]) \<union> snd ` set (take i ext'))"
      by (simp add: ext)
  qed
  have d1: "distinct (map fst ((b @ [(n, tag)]) @ ext'))"
    using Cons.prems(2) by (simp add: ext x n')
  have d2: "distinct (map snd ((b @ [(n, tag)]) @ ext'))"
    using Cons.prems(3) by (simp add: ext x)
  have res: "(b @ [(n, tag)]) @ ext' = b @ ext" by (simp add: ext x n')
  show ?case
  proof (cases "ExplicitTag (attrs_of t)")
    case (Some e)
    with a0 have e: "tag = e" by (simp add: assigned_def)
    have inv: "\<forall>k. 0 \<le> k \<and> k < a \<longrightarrow> k \<in> snd ` set (b @ [(n, tag)])"
      using Cons.prems(6) by auto
    from Cons.IH [OF names d1 d2 rest_assigned Cons.prems(5) inv]
    have "processFields_loop rest a (b @ [(n, tag)]) = Inr (b @ ext)"
      unfolding res .
    with Some fresh unused show ?thesis
      by (simp add: f bij_contains_def inverse_contains_def e)
  next
    case None
    with a0 have lu: "least_unused tag (snd ` set b)" by (simp add: assigned_def)
    from least_unused_unique [OF skip_used_least [OF Cons.prems(5,6)] lu]
    have sk: "skip_used a b = tag" .
    from lu have t0: "0 \<le> tag"
      and inv: "\<forall>k. 0 \<le> k \<and> k < tag \<longrightarrow> k \<in> snd ` set (b @ [(n, tag)])"
      by (auto simp: least_unused_def)
    from Cons.IH [OF names d1 d2 rest_assigned t0 inv]
    have "processFields_loop rest tag (b @ [(n, tag)]) = Inr (b @ ext)"
      unfolding res .
    with None fresh show ?thesis
      by (simp add: f bij_contains_def sk Let_def)
  qed
qed

lemma processFields_complete:
  assumes "tag_assignment fs b"
  shows "processFields fs = Inr b"
proof -
  from assms have n: "map fst b = map fst fs" and dn: "distinct (map fst fs)"
    and dt: "distinct (map snd b)"
    and asg: "\<forall>i<length fs. assigned (snd (fs ! i)) (snd (b ! i)) (snd ` set (take i b))"
    by (simp_all add: tag_assignment_def)
  from dn have dn0: "distinct (map fst ([] @ b))" by (simp add: n)
  from dt have dt0: "distinct (map snd ([] @ b))" by simp
  from asg have asg0: "\<forall>i<length fs. assigned (snd (fs ! i)) (snd (b ! i))
      (snd ` set [] \<union> snd ` set (take i b))" by simp
  from processFields_loop_complete [OF n dn0 dt0 asg0, of 0]
  show ?thesis by (simp add: processFields_def)
qed

lemma processFields_iff: "processFields fs = Inr b \<longleftrightarrow> tag_assignment fs b"
proof
  assume ok: "processFields fs = Inr b"
  note p = processFields_props [OF ok]
  show "tag_assignment fs b"
    unfolding tag_assignment_def using p(1) p(2) p(3) p(4) by blast
next
  assume "tag_assignment fs b"
  then show "processFields fs = Inr b" by (rule processFields_complete)
qed

lemma tag_assignment_automatic:
  assumes "distinct (map fst fs)" and "\<forall>(n, t) \<in> set fs. ExplicitTag (attrs_of t) = None"
  shows "tag_assignment fs (zip (map fst fs) (map int [0..<length fs]))"
proof -
  let ?b = "zip (map fst fs) (map int [0..<length fs])"
  have names: "map fst ?b = map fst fs" by simp
  have tags: "map snd ?b = map int [0..<length fs]" by simp
  have d: "distinct (map snd ?b)" unfolding tags by (simp add: distinct_map inj_on_def)
  have "assigned (snd (fs ! i)) (snd (?b ! i)) (snd ` set (take i ?b))" if i: "i < length fs" for i
  proof -
    from i have "fs ! i \<in> set fs" by simp
    with assms(2) have e: "ExplicitTag (attrs_of (snd (fs ! i))) = None"
      by (cases "fs ! i") auto
    from i have v: "snd (?b ! i) = int i" by simp
    have "map snd (take i ?b) = take i (map snd ?b)" by (rule take_map [symmetric])
    also have "\<dots> = map int [0..<i]" unfolding tags using i by (simp add: take_map)
    finally have "snd ` set (take i ?b) = int ` {0..<i}"
      by (metis atLeastLessThan_upt list.set_map)
    moreover have "least_unused (int i) (int ` {0..<i})"
    proof -
      have "k \<in> int ` {0..<i}" if "0 \<le> k" "k < int i" for k
      proof -
        from that have "nat k \<in> {0..<i}" by simp
        then have "int (nat k) \<in> int ` {0..<i}" by (rule imageI)
        with that show ?thesis by simp
      qed
      then show ?thesis by (auto simp: least_unused_def)
    qed
    ultimately show ?thesis by (simp add: assigned_def e v)
  qed
  with names d assms(1) show ?thesis by (simp add: tag_assignment_def)
qed

section \<open>Facts about the group encoder and decoder\<close>

lemma inverse_getitem_unknown:
  "\<not> inverse_contains b tag \<Longrightarrow> inverse_getitem b tag = Inl EncodingError"
proof -
  assume "\<not> inverse_contains b tag"
  then have "tag \<notin> fst ` set (map (\<lambda>(n, t). (t, n)) b)"
    by (force simp: inverse_contains_def)
  then have "map_of (map (\<lambda>(n, t). (t, n)) b) tag = None"
    unfolding map_of_eq_None_iff .
  then show ?thesis by (simp add: inverse_getitem_def)
qed

section \<open>Round trip of every field category\<close>












definition restore :: "(string \<times> fdata) list \<Rightarrow> (string \<times> ftype \<times> fdata) list \<Rightarrow> (string \<times> fdata) list" where
  "restore raw present = foldl (\<lambda>r (n, t, d). setrawfield n d r) raw present"

lemma restore_Nil [simp]: "restore raw [] = raw"
  by (simp add: restore_def)

lemma restore_Cons [simp]: "restore raw ((n, t, d) # ps) = restore (setrawfield n d raw) ps"
  by (simp add: restore_def)


lemma setrawfield_other [simp]:
  "n \<noteq> n0 \<Longrightarrow> setrawfield n d ((n0, x) # r) = (n0, x) # setrawfield n d r"
  by (simp add: setrawfield_def)



















text \<open>Unfolding sets for evaluating the encoders and decoders on concrete inputs.\<close>

lemmas processFields_eval_defs =
  processFields_def bij_contains_def inverse_contains_def skip_used.simps Let_def



section \<open>Facts about the framed packet\<close>

lemma stream_write_fresh:
  "\<exists>P D. length P = pos s \<and> buf (stream_write bs s) = P @ bs @ D"
proof (intro exI conjI)
  show "buf (stream_write bs s) =
          (take (pos s) (buf s) @ replicate (pos s - length (buf s)) 0) @ bs
            @ drop (pos s + length bs) (buf s)"
    by (simp add: stream_write_def)
  show "length (take (pos s) (buf s) @ replicate (pos s - length (buf s)) 0) = pos s"
    by simp
qed

lemma stream_write_over:
  assumes "buf s = P @ X @ D" and "length P = pos s" and "length X = length bs"
  shows "buf (stream_write bs s) = P @ bs @ D"
  using assms by (simp add: stream_write_def)

lemma stream_write_after:
  assumes "buf s = P @ D" and "length P = pos s"
  shows "buf (stream_write bs s) = P @ bs @ drop (length bs) D"
  using assms by (simp add: stream_write_def)

lemma pos_stream_write [simp]: "pos (stream_write bs s) = pos s + length bs"
  by (simp add: stream_write_def)


lemma struct_pack_int_Q_be_nat:
  assumes "struct_pack_int Code_Q v = Inr bs"
  shows "int (be_nat bs) = v"
  using struct_unpack_pack_int [OF assms] by (simp add: struct_unpack_int_def Let_def)

lemma PacketEncoder_encode_frame:
  assumes "PacketEncoder_encode s packet = Inr s'"
  shows "\<exists>lengthBytes checkBytes defLen packetDefEncoded verLen packetVerEncoded body.
           written s s' = lengthBytes @ checkBytes @ defLen @ packetDefEncoded @ verLen
                            @ packetVerEncoded @ body
         \<and> pos s' = pos s + length (written s s')
         \<and> holds (s'\<lparr>pos := pos s\<rparr>) (written s s')
         \<and> struct_pack_int Code_Q (int (length (written s s'))) = Inr lengthBytes
         \<and> struct_pack_int Code_Q (int (length (written s s')) XOR LENGTH_MASK) = Inr checkBytes
         \<and> utf8_encode (DEFINITION_IDENTIFIER packet) = Inr packetDefEncoded
         \<and> utf8_encode (DEFINITION_VERSION packet) = Inr packetVerEncoded
         \<and> struct_pack_int Code_B (int (length packetDefEncoded)) = Inr defLen
         \<and> struct_pack_int Code_B (int (length packetVerEncoded)) = Inr verLen
         \<and> PacketFieldsEncoder_encode encode (FIELDS packet) (GroupData (rawfields packet)) = Inr body
         \<and> max_size s' = max_size s \<and> pending s' = pending s"
proof -
  from assms obtain packetDefEncoded packetVerEncoded zero defLen verLen body lengthBytes checkBytes
    where de: "utf8_encode (DEFINITION_IDENTIFIER packet) = Inr packetDefEncoded"
      and ve: "utf8_encode (DEFINITION_VERSION packet) = Inr packetVerEncoded"
      and z: "struct_pack_int Code_Q 0 = Inr zero"
      and dl: "struct_pack_int Code_B (int (length packetDefEncoded)) = Inr defLen"
      and vl: "struct_pack_int Code_B (int (length packetVerEncoded)) = Inr verLen"
      and b: "PacketFieldsEncoder_encode encode (FIELDS packet) (GroupData (rawfields packet)) = Inr body"
      and lb: "struct_pack_int Code_Q
                 (int (pos (stream_write body (stream_write
                    (zero @ zero @ defLen @ packetDefEncoded @ verLen @ packetVerEncoded) s))) - int (pos s))
               = Inr lengthBytes"
      and cb: "struct_pack_int Code_Q
                 ((int (pos (stream_write body (stream_write
                    (zero @ zero @ defLen @ packetDefEncoded @ verLen @ packetVerEncoded) s))) - int (pos s))
                  XOR LENGTH_MASK)
               = Inr checkBytes"
      and s': "s' = (stream_write checkBytes (stream_write lengthBytes
                  ((stream_write body (stream_write
                    (zero @ zero @ defLen @ packetDefEncoded @ verLen @ packetVerEncoded) s))
                     \<lparr>pos := pos s\<rparr>)))
                  \<lparr>pos := pos (stream_write body (stream_write
                    (zero @ zero @ defLen @ packetDefEncoded @ verLen @ packetVerEncoded) s))\<rparr>"
    by (auto simp: PacketEncoder_encode_def Let_def ebind_def split: sum.splits)
  define rest where "rest = defLen @ packetDefEncoded @ verLen @ packetVerEncoded"
  define s1 where "s1 = stream_write (zero @ zero @ rest) s"
  define s2 where "s2 = stream_write body s1"
  define s3 where "s3 = s2\<lparr>pos := pos s\<rparr>"
  define s4 where "s4 = stream_write lengthBytes s3"
  define s5 where "s5 = stream_write checkBytes s4"
  have s'_eq: "s' = s5\<lparr>pos := pos s2\<rparr>"
    unfolding s' s5_def s4_def s3_def s2_def s1_def rest_def by simp
  have lz: "length zero = 8" using struct_pack_int_length [OF z] by simp
  have ll: "length lengthBytes = 8" using struct_pack_int_length [OF lb] by simp
  have lc: "length checkBytes = 8" using struct_pack_int_length [OF cb] by simp
  from stream_write_fresh [of s "zero @ zero @ rest"] obtain P D
    where P: "length P = pos s" and b1: "buf s1 = P @ (zero @ zero @ rest) @ D"
    unfolding s1_def by blast
  have p1: "pos s1 = pos s + length (zero @ zero @ rest)" by (simp add: s1_def)
  have b2: "buf s2 = (P @ zero @ zero @ rest) @ body @ drop (length body) D"
    unfolding s2_def
    by (rule stream_write_after) (simp_all add: b1 p1 P)
  have p2: "pos s2 = pos s + 16 + length rest + length body"
    by (simp add: s2_def p1 lz)
  have b3: "buf s3 = P @ zero @ (zero @ rest @ body @ drop (length body) D)"
    by (simp add: s3_def b2)
  have p3: "pos s3 = pos s" by (simp add: s3_def)
  have b4: "buf s4 = P @ lengthBytes @ (zero @ rest @ body @ drop (length body) D)"
    unfolding s4_def by (rule stream_write_over [OF b3]) (simp_all add: p3 P lz ll)
  have p4: "pos s4 = pos s + 8" by (simp add: s4_def p3 ll)
  have b4': "buf s4 = (P @ lengthBytes) @ zero @ (rest @ body @ drop (length body) D)"
    by (simp add: b4)
  have b5: "buf s5 = (P @ lengthBytes) @ checkBytes @ (rest @ body @ drop (length body) D)"
    unfolding s5_def by (rule stream_write_over [OF b4']) (simp_all add: p4 P lz ll lc)
  have bs': "buf s' = P @ (lengthBytes @ checkBytes @ rest @ body) @ drop (length body) D"
    by (simp add: s'_eq b5)
  have ps': "pos s' = pos s + length (lengthBytes @ checkBytes @ rest @ body)"
    by (simp add: s'_eq p2 ll lc)
  have w: "written s s' = lengthBytes @ checkBytes @ rest @ body"
    unfolding written_def bs' ps' using P by simp
  have len: "int (length (written s s')) = int (pos s2) - int (pos s)"
    by (simp add: w p2 ll lc)
  have h: "holds (s'\<lparr>pos := pos s\<rparr>) (written s s')"
    unfolding holds_def w using P by (simp add: bs')
  have ms: "max_size s' = max_size s \<and> pending s' = pending s"
    by (simp add: s'_eq s5_def s4_def s3_def s2_def s1_def stream_write_def)
  show ?thesis
    apply (rule exI [of _ lengthBytes], rule exI [of _ checkBytes], rule exI [of _ defLen],
        rule exI [of _ packetDefEncoded], rule exI [of _ verLen], rule exI [of _ packetVerEncoded],
        rule exI [of _ body])
    using w ps' h lb cb de ve dl vl b ms
    unfolding len s2_def s1_def rest_def
    by simp
qed


lemmas packet_encode_eval_defs =
  PacketEncoder_encode_def stream_write_def stream_of_def LENGTH_MASK_def Let_def
  utf8_encode_def utf8_encode_nat.simps utf8_encode_cp_def
  PacketFieldsEncoder_encode_def processFields_def ebind_def struct_pack_int_def be_bytes_numeral








lemma holds_max_size [simp]: "holds (s\<lparr>max_size := m\<rparr>) bs = holds s bs"
  by (simp add: holds_def)








section \<open>The claims\<close>

text \<open>
  Claim C5. For a UINT field, and for an INT field with the signed table, the number of
  bytes that \<open>encode\<close> writes is the smallest of 1, 2, 4 and 8 whose unsigned range
  \<open>2 ^ (8 * w)\<close> is strictly above the declared \<open>MaxValue\<close> (\<open>2 ^ 32 - 1\<close> when the attribute
  is absent), whatever the value in the slot; below \<open>2 ^ 64\<close> the value 0 does encode; a
  declared \<open>MaxValue\<close> of \<open>2 ^ 64\<close> or more makes every encode fail with
  \<open>PacketEncodingError\<close>.
\<close>

theorem C5_width_from_MaxValue:
  assumes t: "t = UINT_field a \<or> t = INT_field a"
    and m: "m = GetAttribute (MaxValue a) DEFAULT_MAXVALUE"
  shows "(\<forall>v bs. encode t (IntData v) = Inr bs \<longrightarrow>
            length bs \<in> {1, 2, 4, 8} \<and> m < 2 ^ (8 * length bs)
            \<and> (\<forall>w \<in> {1, 2, 4, 8}. m < 2 ^ (8 * w) \<longrightarrow> length bs \<le> w))
       \<and> (MaxValue a = None \<longrightarrow> m = 2 ^ 32 - 1)
       \<and> (m < 2 ^ 64 \<longrightarrow> (\<exists>bs. encode t (IntData 0) = Inr bs))
       \<and> (2 ^ 64 \<le> m \<longrightarrow>
            (\<forall>d. encode t d = Inl (PacketEncodingError (CannotEncodeUintOfSize m))))"
proof -
  define tbl where
    "tbl = (if t = UINT_field a then UintEncoder_SIZE_TO_PACKCODE else IntEncoder_SIZE_TO_PACKCODE)"
  have tbl: "tbl = UintEncoder_SIZE_TO_PACKCODE \<or> tbl = IntEncoder_SIZE_TO_PACKCODE"
    by (simp add: tbl_def)
  have enc: "encode t d = ebind (maxValueToPackCode tbl m) (\<lambda>packCode. struct_pack packCode d)"
    for d
    unfolding tbl_def m by (rule encode_int_field [OF t])
  have width: "length bs \<in> {1, 2, 4, 8} \<and> m < 2 ^ (8 * length bs)
            \<and> (\<forall>w \<in> {1, 2, 4, 8}. m < 2 ^ (8 * w) \<longrightarrow> length bs \<le> w)"
    if e: "encode t (IntData v) = Inr bs" for v bs
  proof -
    from e obtain code where code: "maxValueToPackCode tbl m = Inr code"
      and pk: "struct_pack code (IntData v) = Inr bs"
      by (auto simp: enc ebind_def split: sum.splits)
    from pk have len: "length bs = calcsize code"
      by (rule struct_pack_length)
    from int_code_cases [OF code tbl] show ?thesis
      unfolding len by (elim disjE conjE) simp_all
  qed
  have dflt: "MaxValue a = None \<longrightarrow> m = 2 ^ 32 - 1"
    by (simp add: m GetAttribute_def DEFAULT_MAXVALUE_def)
  have ok: "\<exists>bs. encode t (IntData 0) = Inr bs" if "m < 2 ^ 64"
  proof -
    from int_code_succeeds [OF that tbl] obtain code where "maxValueToPackCode tbl m = Inr code" ..
    moreover have "struct_pack code (IntData 0) = struct_pack_int code 0"
      using \<open>maxValueToPackCode tbl m = Inr code\<close> tbl
      by (auto simp: struct_pack_def maxValueToPackCode_Uint maxValueToPackCode_Int
          split: if_splits)
    ultimately show ?thesis
      using struct_pack_int_zero [of code] by (auto simp: enc ebind_def)
  qed
  have bad: "encode t d = Inl (PacketEncodingError (CannotEncodeUintOfSize m))"
    if "2 ^ 64 \<le> m" for d
    by (simp add: enc int_code_fails [OF that tbl] ebind_def)
  from width dflt ok bad show ?thesis by blast
qed

text \<open>A one-byte UINT with \<open>MaxValue = 255\<close>, as an instance of C5.\<close>

theorem C5_width_witness:
  "encode (UINT_field \<lparr>MaxValue = Some 255, Optional = None, ExplicitTag = None\<rparr>) (IntData 10)
     = Inr [10] \<and> length [10 :: byte] = 1 \<and> (255 :: int) < 2 ^ (8 * 1)"
  using C5_width_from_MaxValue
    [of "UINT_field \<lparr>MaxValue = Some 255, Optional = None, ExplicitTag = None\<rparr>"
        "\<lparr>MaxValue = Some 255, Optional = None, ExplicitTag = None\<rparr>" 255]
  by (simp add: encode_scalar_defs)

text \<open>
  Claim C10. Encoding a UINT or INT field never looks at \<open>MaxValue\<close> again once the pack
  code is chosen from it: every value in the range of the chosen code, above
  \<open>MaxValue\<close> or not, encodes in the width of the code and decodes back to itself, and
  exactly the values outside that range fail (with the \<^verbatim>\<open>struct.error\<close> of \<^verbatim>\<open>struct.pack\<close>).
\<close>

theorem C10_no_MaxValue_check:
  assumes t: "t = UINT_field a \<and> tbl = UintEncoder_SIZE_TO_PACKCODE
              \<or> t = INT_field a \<and> tbl = IntEncoder_SIZE_TO_PACKCODE"
    and code: "maxValueToPackCode tbl (GetAttribute (MaxValue a) DEFAULT_MAXVALUE) = Inr code"
  shows "(representable code v \<longrightarrow>
            (\<exists>bs. encode t (IntData v) = Inr bs \<and> length bs = calcsize code
                 \<and> decode t (stream_of bs) = Some (Inr (IntData v))))
       \<and> (\<not> representable code v \<longrightarrow> encode t (IntData v) = Inl StructError)"
proof -
  from t have t': "t = UINT_field a \<or> t = INT_field a" by auto
  from t have tbl: "tbl = (if t = UINT_field a then UintEncoder_SIZE_TO_PACKCODE
      else IntEncoder_SIZE_TO_PACKCODE)" by auto
  have nb: "code \<noteq> Code_bool"
    using code t
    by (auto simp: maxValueToPackCode_Uint maxValueToPackCode_Int split: if_splits)
  have enc: "encode t (IntData v) = struct_pack_int code v"
    using code nb by (simp add: encode_int_field [OF t'] tbl [symmetric] ebind_def struct_pack_def)
  have "\<exists>bs. encode t (IntData v) = Inr bs \<and> length bs = calcsize code
                 \<and> decode t (stream_of bs) = Some (Inr (IntData v))" if "representable code v"
  proof -
    from that obtain bs where bs: "encode t (IntData v) = Inr bs"
      by (simp add: enc struct_pack_int_representable)
    then have len: "length bs = calcsize code"
      by (simp add: enc struct_pack_int_length)
    from t bs have "IntrinsicTypeStandardEncoder_encode (UintEncoder_getPackCode tbl a) (IntData v) = Inr bs"
      by auto
    then have "IntrinsicTypeStandardEncoder_decodeIterator (UintEncoder_getPackCode tbl a) (stream_of bs)
        = Done (IntData v) (advance (length bs) (stream_of bs))"
      by (rule Intrinsic_roundtrip) simp_all
    with t have "decodeIterator t (stream_of bs) = Done (IntData v) (advance (length bs) (stream_of bs))"
      by auto
    then have "decode t (stream_of bs) = Some (Inr (IntData v))"
      by (simp add: decode_def)
    with bs len show ?thesis by blast
  qed
  moreover have "encode t (IntData v) = Inl StructError" if "\<not> representable code v"
    using that by (simp add: enc struct_pack_int_representable)
  ultimately show ?thesis by blast
qed

text \<open>\<open>MaxValue = 100\<close> and the value 200, as an instance of C10; 256 fails.\<close>

theorem C10_no_MaxValue_check_witness:
  "maxValueToPackCode UintEncoder_SIZE_TO_PACKCODE
     (GetAttribute (MaxValue \<lparr>MaxValue = Some 100, Optional = None, ExplicitTag = None\<rparr>) DEFAULT_MAXVALUE)
     = Inr Code_B
   \<and> representable Code_B 200
   \<and> encode (UINT_field \<lparr>MaxValue = Some 100, Optional = None, ExplicitTag = None\<rparr>) (IntData 200)
       = Inr [200]
   \<and> decode (UINT_field \<lparr>MaxValue = Some 100, Optional = None, ExplicitTag = None\<rparr>) (stream_of [200])
       = Some (Inr (IntData 200))
   \<and> encode (UINT_field \<lparr>MaxValue = Some 100, Optional = None, ExplicitTag = None\<rparr>) (IntData 256)
       = Inl StructError"
proof -
  let ?a = "\<lparr>MaxValue = Some 100, Optional = None, ExplicitTag = None\<rparr>"
  have c: "maxValueToPackCode UintEncoder_SIZE_TO_PACKCODE (GetAttribute (MaxValue ?a) DEFAULT_MAXVALUE)
      = Inr Code_B"
    by (simp add: maxValueToPackCode_Uint GetAttribute_def)
  have r: "representable Code_B 200" "\<not> representable Code_B 256"
    by (simp_all add: representable_def)
  have e: "encode (UINT_field ?a) (IntData 200) = Inr [200]"
    by (simp add: encode_scalar_defs)
  from C10_no_MaxValue_check [of "UINT_field ?a" ?a UintEncoder_SIZE_TO_PACKCODE Code_B 200, OF _ c]
    C10_no_MaxValue_check [of "UINT_field ?a" ?a UintEncoder_SIZE_TO_PACKCODE Code_B 256, OF _ c]
    c r e
  show ?thesis by simp
qed

text \<open>
  Claim C8 says that a string is written as a 2-byte length prefix followed by its UTF-8
  bytes. \<^verbatim>\<open>StringEncoder.encode\<close> takes the length of the \<^verbatim>\<open>str\<close>, that is its number of
  code points, both for the prefix and for the width of \<^verbatim>\<open>"{n}s"\<close>, which cuts the
  encoded bytes to that number. For the one code point U+00E9, whose UTF-8 form is the
  two bytes C3 A9, the encoder writes the prefix 1 and the single byte C3.
\<close>

theorem C8_string_length_counts_code_points:
  "utf8_encode [0xE9] = Inr [0xC3, 0xA9]
   \<and> encode (STRING_field \<lparr>MaxValue = None, Optional = None, ExplicitTag = None\<rparr>) (StrData [0xE9])
       = Inr [0x00, 0x01, 0xC3]"
  by (simp add: utf8_encode_def utf8_encode_cp_def ebind_def StringEncoder_encode_def
      StringEncoder_MAX_LENGTH_def struct_pack_int_def struct_pack_s_def be_bytes_numeral)

text \<open>
  Claim C1 says that \<open>decode\<close> of the bytes of \<open>encode\<close> gives the value back. For the
  string of the two code points U+00E9 U+0061 the encoder writes the prefix 2 and the
  first two of the three UTF-8 bytes, and the decoder returns the one code point U+00E9
  without an error.
\<close>

theorem C1_string_round_trip_loses_data:
  "encode (STRING_field \<lparr>MaxValue = None, Optional = None, ExplicitTag = None\<rparr>) (StrData [0xE9, 0x61])
     = Inr [0x00, 0x02, 0xC3, 0xA9]
   \<and> decode (STRING_field \<lparr>MaxValue = None, Optional = None, ExplicitTag = None\<rparr>)
        (stream_of [0x00, 0x02, 0xC3, 0xA9])
     = Some (Inr (StrData [0xE9]))"
  by (simp add: utf8_encode_def utf8_encode_cp_def ebind_def StringEncoder_encode_def
      StringEncoder_MAX_LENGTH_def struct_pack_int_def struct_pack_s_def be_bytes_numeral
      decode_eval_defs)

text \<open>
  Claim C6. \<open>processFields\<close> (the loop of \<^verbatim>\<open>_processFields\<close>) returns \<open>b\<close> exactly when \<open>b\<close> is the
  tag assignment of the declaration: the declared names in order, each once, with distinct
  tags, a field with an \<open>ExplicitTag\<close> under that tag and every other field under the smallest
  nonnegative integer that no field before it has. It succeeds on every declaration of
  distinct names without explicit tags, with the tags \<open>0, 1, 2, \<dots>\<close>, and it fails, with
  "Duplicate Field" or "Duplicate Explicit Tag", exactly when the declaration has no tag
  assignment, in particular whenever a name is declared twice and whenever two fields
  carry the same explicit tag. Encoding and decoding a group both start from \<open>processFields\<close>
  of the same declaration, which has no other input: a failure of it is the result of
  both; on success the encoder writes its fields under the tags of \<open>b\<close> and the decoder
  resolves the tags it reads through the inverse of the same \<open>b\<close>, and the forward and the
  inverse lookup are inverse to each other.
\<close>

theorem C6_tag_assignment:
  "(processFields fs = Inr b \<longleftrightarrow> tag_assignment fs b)
   \<and> (distinct (map fst fs) \<and> (\<forall>(n, t) \<in> set fs. ExplicitTag (attrs_of t) = None) \<longrightarrow>
        processFields fs = Inr (zip (map fst fs) (map int [0..<length fs])))
   \<and> ((\<exists>err. processFields fs = Inl err) \<longleftrightarrow> \<not> (\<exists>b'. tag_assignment fs b'))
   \<and> (\<not> distinct (map fst fs) \<longrightarrow> (\<exists>err. processFields fs = Inl err))
   \<and> (i < j \<and> j < length fs \<and> ExplicitTag (attrs_of (snd (fs ! i))) = Some e
        \<and> ExplicitTag (attrs_of (snd (fs ! j))) = Some e \<longrightarrow>
        (\<exists>err. processFields fs = Inl err))
   \<and> (processFields fs = Inl err \<longrightarrow>
        (err = Exception DuplicateField \<or> err = Exception DuplicateExplicitTag)
        \<and> encode (GROUP_field a fs) (GroupData raw) = Inl err
        \<and> decodeIterator (GROUP_field a fs) s = Raised err s)
   \<and> (processFields fs = Inr b \<longrightarrow>
        (\<forall>n tag. bij_getitem b n = Inr tag \<longleftrightarrow> inverse_getitem b tag = Inr n)
        \<and> encode (GROUP_field a fs) (GroupData raw)
            = ebind (collect_fields fs raw) (\<lambda>encodeFields.
              ebind (struct_pack_int Code_H (int (length encodeFields))) (\<lambda>cnt.
              ebind (encode_all (encode_field encode b) encodeFields) (\<lambda>body.
              Inr (cnt @ body))))
        \<and> decodeIterator (GROUP_field a fs) s
            = gbind (unpackIterator_int Code_H) (\<lambda>fieldCount.
                decode_fields decodeIterator fs b (nat fieldCount) (initializeData fs)) s)"
proof -
  have total: "(\<exists>err. processFields fs = Inl err) \<longleftrightarrow> \<not> (\<exists>b'. processFields fs = Inr b')"
    by (cases "processFields fs") simp_all
  have no_dup: "\<exists>err. processFields fs = Inl err" if "\<not> (\<exists>b'. tag_assignment fs b')"
    using that total by (simp add: processFields_iff)
  show ?thesis
  proof (intro conjI impI)
    show "processFields fs = Inr b \<longleftrightarrow> tag_assignment fs b"
      by (rule processFields_iff)
  next
    assume "distinct (map fst fs) \<and> (\<forall>(n, t) \<in> set fs. ExplicitTag (attrs_of t) = None)"
    then have "tag_assignment fs (zip (map fst fs) (map int [0..<length fs]))"
      by (intro tag_assignment_automatic) simp_all
    then show "processFields fs = Inr (zip (map fst fs) (map int [0..<length fs]))"
      by (rule processFields_complete)
  next
    show "(\<exists>err. processFields fs = Inl err) \<longleftrightarrow> \<not> (\<exists>b'. tag_assignment fs b')"
      using total by (simp add: processFields_iff)
  next
    assume dup: "\<not> distinct (map fst fs)"
    then have "\<not> (\<exists>b'. tag_assignment fs b')" by (simp add: tag_assignment_def)
    then show "\<exists>err. processFields fs = Inl err" by (rule no_dup)
  next
    assume h: "i < j \<and> j < length fs \<and> ExplicitTag (attrs_of (snd (fs ! i))) = Some e
        \<and> ExplicitTag (attrs_of (snd (fs ! j))) = Some e"
    have "\<not> (\<exists>b'. tag_assignment fs b')"
    proof
      assume "\<exists>b'. tag_assignment fs b'"
      then obtain b' where names: "map fst b' = map fst fs" and tags: "distinct (map snd b')"
        and asg: "\<forall>i<length fs. assigned (snd (fs ! i)) (snd (b' ! i)) (snd ` set (take i b'))"
        by (auto simp: tag_assignment_def)
      from names have len: "length b' = length fs" by (metis length_map)
      from h have ij: "i < length fs" "j < length fs" "i \<noteq> j" by auto
      from asg ij(1) have "assigned (snd (fs ! i)) (snd (b' ! i)) (snd ` set (take i b'))"
        by blast
      with h have ei: "snd (b' ! i) = e" by (simp add: assigned_def)
      from asg ij(2) have "assigned (snd (fs ! j)) (snd (b' ! j)) (snd ` set (take j b'))"
        by blast
      with h have ej: "snd (b' ! j) = e" by (simp add: assigned_def)
      note ei ej
      with ij len have "map snd b' ! i = map snd b' ! j" by simp
      moreover from ij len have "i < length (map snd b')" "j < length (map snd b')" by simp_all
      ultimately have "i = j"
        using tags nth_eq_iff_index_eq [of "map snd b'" i j] by blast
      with ij show False by simp
    qed
    then show "\<exists>err. processFields fs = Inl err" by (rule no_dup)
  next
    assume bad: "processFields fs = Inl err"
    then show "err = Exception DuplicateField \<or> err = Exception DuplicateExplicitTag"
      unfolding processFields_def by (rule processFields_loop_error)
    from bad show "encode (GROUP_field a fs) (GroupData raw) = Inl err"
      by (simp add: PacketFieldsEncoder_encode_def ebind_def)
    from bad show "decodeIterator (GROUP_field a fs) s = Raised err s"
      by (simp add: PacketFieldsEncoder_decodeIterator_def gbind_def lift_error_def graise_def)
  next
    assume ok: "processFields fs = Inr b"
    note p = processFields_props [OF ok]
    from p(2) have "distinct (map fst b)" unfolding p(1) .
    from bijection_inverse [OF this p(3)]
    show "\<forall>n tag. bij_getitem b n = Inr tag \<longleftrightarrow> inverse_getitem b tag = Inr n"
      by blast
    from ok show "encode (GROUP_field a fs) (GroupData raw)
            = ebind (collect_fields fs raw) (\<lambda>encodeFields.
              ebind (struct_pack_int Code_H (int (length encodeFields))) (\<lambda>cnt.
              ebind (encode_all (encode_field encode b) encodeFields) (\<lambda>body.
              Inr (cnt @ body))))"
      by (simp add: PacketFieldsEncoder_encode_def ebind_def)
    from ok show "decodeIterator (GROUP_field a fs) s
            = gbind (unpackIterator_int Code_H) (\<lambda>fieldCount.
                decode_fields decodeIterator fs b (nat fieldCount) (initializeData fs)) s"
      by (simp add: PacketFieldsEncoder_decodeIterator_def gbind_def lift_error_def greturn_def)
  qed
qed

text \<open>
  An explicit tag 1 followed by two automatic tags gives the tags 1, 0 and 2, and this
  is a tag assignment; four fields without explicit tags get 0, 1, 2, 3; a repeated name
  and a repeated explicit tag fail, and so does the explicit tag 0 after an automatic one.
\<close>

theorem C6_tag_assignment_witness:
  "processFields
     [(''a'', UINT_field \<lparr>MaxValue = None, Optional = None, ExplicitTag = Some 1\<rparr>),
      (''b'', UINT_field \<lparr>MaxValue = None, Optional = None, ExplicitTag = None\<rparr>),
      (''c'', UINT_field \<lparr>MaxValue = None, Optional = None, ExplicitTag = None\<rparr>)]
     = Inr [(''a'', 1), (''b'', 0), (''c'', 2)]
   \<and> tag_assignment
     [(''a'', UINT_field \<lparr>MaxValue = None, Optional = None, ExplicitTag = Some 1\<rparr>),
      (''b'', UINT_field \<lparr>MaxValue = None, Optional = None, ExplicitTag = None\<rparr>),
      (''c'', UINT_field \<lparr>MaxValue = None, Optional = None, ExplicitTag = None\<rparr>)]
     [(''a'', 1), (''b'', 0), (''c'', 2)]
   \<and> processFields
     [(''p'', UINT_field \<lparr>MaxValue = None, Optional = None, ExplicitTag = None\<rparr>),
      (''q'', UINT_field \<lparr>MaxValue = None, Optional = None, ExplicitTag = None\<rparr>),
      (''r'', UINT_field \<lparr>MaxValue = None, Optional = None, ExplicitTag = None\<rparr>),
      (''s'', UINT_field \<lparr>MaxValue = None, Optional = None, ExplicitTag = None\<rparr>)]
     = Inr [(''p'', 0), (''q'', 1), (''r'', 2), (''s'', 3)]
   \<and> processFields
     [(''a'', UINT_field \<lparr>MaxValue = None, Optional = None, ExplicitTag = Some 1\<rparr>),
      (''a'', UINT_field \<lparr>MaxValue = None, Optional = None, ExplicitTag = None\<rparr>)]
     = Inl (Exception DuplicateField)
   \<and> processFields
     [(''a'', UINT_field \<lparr>MaxValue = None, Optional = None, ExplicitTag = Some 1\<rparr>),
      (''b'', UINT_field \<lparr>MaxValue = None, Optional = None, ExplicitTag = Some 1\<rparr>)]
     = Inl (Exception DuplicateExplicitTag)
   \<and> processFields
     [(''a'', UINT_field \<lparr>MaxValue = None, Optional = None, ExplicitTag = None\<rparr>),
      (''b'', UINT_field \<lparr>MaxValue = None, Optional = None, ExplicitTag = Some 0\<rparr>)]
     = Inl (Exception DuplicateExplicitTag)"
proof -
  let ?u = "\<lambda>e. UINT_field \<lparr>MaxValue = None, Optional = None, ExplicitTag = e\<rparr>"
  let ?fs = "[(''a'', ?u (Some 1)), (''b'', ?u None), (''c'', ?u None)]"
  let ?b = "[(''a'', 1), (''b'', 0), (''c'', 2 :: int)]"
  let ?gs = "[(''p'', ?u None), (''q'', ?u None), (''r'', ?u None), (''s'', ?u None)]"
  have ok: "processFields ?fs = Inr ?b"
    by (simp add: processFields_eval_defs)
  have d1: "processFields [(''a'', ?u (Some 1)), (''a'', ?u None)] = Inl (Exception DuplicateField)"
    by (simp add: processFields_eval_defs)
  have d2: "processFields [(''a'', ?u (Some 1)), (''b'', ?u (Some 1))]
      = Inl (Exception DuplicateExplicitTag)"
    by (simp add: processFields_eval_defs)
  have d3: "processFields [(''a'', ?u None), (''b'', ?u (Some 0))]
      = Inl (Exception DuplicateExplicitTag)"
    by (simp add: processFields_eval_defs)
  from C6_tag_assignment [where fs = ?fs and b = ?b] ok
  have ta: "tag_assignment ?fs ?b" by blast
  have "distinct (map fst ?gs) \<and> (\<forall>(n, t) \<in> set ?gs. ExplicitTag (attrs_of t) = None)"
    by simp
  with C6_tag_assignment [where fs = ?gs]
  have "processFields ?gs = Inr (zip (map fst ?gs) (map int [0..<length ?gs]))"
    by blast
  then have auto_tags: "processFields ?gs = Inr [(''p'', 0), (''q'', 1), (''r'', 2), (''s'', 3)]"
    by (simp add: upt_rec)
  from ok ta auto_tags d1 d2 d3 show ?thesis by simp
qed

text \<open>
  Claim C9. In the loop of the group decoder, a tag read from the wire that has no image
  under the inverse of the bijection ends the decoder with the failure of the lookup
  \<^verbatim>\<open>fieldToTag.inverse()[fieldID]\<close>, \<open>EncodingError\<close>, at the stream position after the tag:
  no member is decoded, whatever the top-level decoder, the number of entries still
  announced and the fields filled so far. For the first entry of a group this is the
  result of \<open>decodeIterator\<close> on the group.
\<close>

theorem C9_unknown_tag_fails:
  "(unpackIterator_int Code_H s = Done fieldID s' \<and> \<not> inverse_contains fieldToTag fieldID
      \<longrightarrow> decode_fields topDecoder fs fieldToTag (Suc n) raw s = Raised EncodingError s')
   \<and> (processFields fs = Inr fieldToTag \<and> unpackIterator_int Code_H s0 = Done fieldCount s
        \<and> 0 < fieldCount \<and> unpackIterator_int Code_H s = Done fieldID s'
        \<and> \<not> inverse_contains fieldToTag fieldID
      \<longrightarrow> decodeIterator (GROUP_field a fs) s0 = Raised EncodingError s')"
proof (intro conjI impI)
  assume "unpackIterator_int Code_H s = Done fieldID s' \<and> \<not> inverse_contains fieldToTag fieldID"
  then show "decode_fields topDecoder fs fieldToTag (Suc n) raw s = Raised EncodingError s'"
    by (simp add: gbind_def lift_error_def graise_def inverse_getitem_unknown)
next
  assume h: "processFields fs = Inr fieldToTag \<and> unpackIterator_int Code_H s0 = Done fieldCount s
        \<and> 0 < fieldCount \<and> unpackIterator_int Code_H s = Done fieldID s'
        \<and> \<not> inverse_contains fieldToTag fieldID"
  then obtain m where m: "nat fieldCount = Suc m" by (cases "nat fieldCount") auto
  from h show "decodeIterator (GROUP_field a fs) s0 = Raised EncodingError s'"
    by (simp add: PacketFieldsEncoder_decodeIterator_def m gbind_def lift_error_def graise_def
        greturn_def inverse_getitem_unknown)
qed

text \<open>
  A group with the one field \<open>f\<close> (tag 0), and a wire that announces one entry with the
  unknown tag 7: the decoder fails after the tag, at position 4.
\<close>

theorem C9_unknown_tag_witness:
  "processFields [(''f'', UINT_field \<lparr>MaxValue = None, Optional = None, ExplicitTag = None\<rparr>)]
     = Inr [(''f'', 0)]
   \<and> unpackIterator_int Code_H (stream_of [0, 1, 0, 7])
     = Done 1 \<lparr>buf = [0, 1, 0, 7], pos = 2, max_size = None, pending = []\<rparr>
   \<and> unpackIterator_int Code_H \<lparr>buf = [0, 1, 0, 7], pos = 2, max_size = None, pending = []\<rparr>
     = Done 7 \<lparr>buf = [0, 1, 0, 7], pos = 4, max_size = None, pending = []\<rparr>
   \<and> \<not> inverse_contains [(''f'', 0)] 7
   \<and> decodeIterator
        (GROUP_field \<lparr>MaxValue = None, Optional = None, ExplicitTag = None\<rparr>
           [(''f'', UINT_field \<lparr>MaxValue = None, Optional = None, ExplicitTag = None\<rparr>)])
        (stream_of [0, 1, 0, 7])
     = Raised EncodingError \<lparr>buf = [0, 1, 0, 7], pos = 4, max_size = None, pending = []\<rparr>"
proof -
  let ?fs = "[(''f'', UINT_field \<lparr>MaxValue = None, Optional = None, ExplicitTag = None\<rparr>)]"
  let ?s1 = "\<lparr>buf = [0, 1, 0, 7 :: byte], pos = 2, max_size = None, pending = []\<rparr>"
  let ?s2 = "\<lparr>buf = [0, 1, 0, 7 :: byte], pos = 4, max_size = None, pending = []\<rparr>"
  have p: "processFields ?fs = Inr [(''f'', 0)]"
    by (simp add: processFields_eval_defs)
  have c: "unpackIterator_int Code_H (stream_of [0, 1, 0, 7]) = Done 1 ?s1"
    by (simp add: decode_eval_defs)
  have u: "unpackIterator_int Code_H ?s1 = Done 7 ?s2"
    by (simp add: decode_eval_defs)
  have n: "\<not> inverse_contains [(''f'', 0)] 7"
    by (simp add: inverse_contains_def)
  from C9_unknown_tag_fails [of ?s1 7 ?s2 "[(''f'', 0)]" decodeIterator ?fs 0 "[(''f'', UNSET)]"
      "stream_of [0, 1, 0, 7]" 1 "\<lparr>MaxValue = None, Optional = None, ExplicitTag = None\<rparr>"] p c u n
  show ?thesis by simp
qed




text \<open>
  C2. The bytes a call of \<^verbatim>\<open>PacketEncoder.encode\<close> writes (from the position of the stream
  at the call to its position at the return) start with two big-endian unsigned 64-bit
  integers: the number of bytes written, header included, and this number XOR
  \<^verbatim>\<open>0xFFFFFFFFFFFFFFFF\<close>. The packet with identifier \<^verbatim>\<open>"demo"\<close>, version \<^verbatim>\<open>"1.0.0"\<close> and no
  field is written as 29 bytes that start with \<^verbatim>\<open>0x000000000000001D\<close> and
  \<^verbatim>\<open>0xFFFFFFFFFFFFFFE2\<close>.
\<close>

theorem C2_frame_header:
  "(PacketEncoder_encode s packet = Inr s' \<longrightarrow>
      pos s' = pos s + length (written s s')
      \<and> holds (s'\<lparr>pos := pos s\<rparr>) (written s s')
      \<and> int (be_nat (take 8 (written s s'))) = int (length (written s s'))
      \<and> int (be_nat (take 8 (drop 8 (written s s'))))
          = int (length (written s s')) XOR 0xFFFFFFFFFFFFFFFF)
   \<and> PacketEncoder_encode (stream_of [])
        \<lparr>DEFINITION_IDENTIFIER = [100, 101, 109, 111], DEFINITION_VERSION = [49, 46, 48, 46, 48],
         FIELDS = [], rawfields = []\<rparr>
      = Inr \<lparr>buf = [0, 0, 0, 0, 0, 0, 0, 0x1D, 0xFF, 0xFF, 0xFF, 0xFF, 0xFF, 0xFF, 0xFF, 0xE2,
                    4, 100, 101, 109, 111, 5, 49, 46, 48, 46, 48, 0, 0],
             pos = 29, max_size = None, pending = []\<rparr>"
proof (intro conjI impI)
  assume e: "PacketEncoder_encode s packet = Inr s'"
  from PacketEncoder_encode_frame [OF e] obtain lengthBytes checkBytes tl
    where w: "written s s' = lengthBytes @ checkBytes @ tl"
      and p: "pos s' = pos s + length (written s s')"
      and h: "holds (s'\<lparr>pos := pos s\<rparr>) (written s s')"
      and lb: "struct_pack_int Code_Q (int (length (written s s'))) = Inr lengthBytes"
      and cb: "struct_pack_int Code_Q (int (length (written s s')) XOR LENGTH_MASK) = Inr checkBytes"
    by blast
  have ll: "length lengthBytes = 8" using struct_pack_int_length [OF lb] by simp
  have lc: "length checkBytes = 8" using struct_pack_int_length [OF cb] by simp
  show "pos s' = pos s + length (written s s')" by (rule p)
  show "holds (s'\<lparr>pos := pos s\<rparr>) (written s s')" by (rule h)
  have "take 8 (written s s') = lengthBytes" by (simp add: w ll)
  then show "int (be_nat (take 8 (written s s'))) = int (length (written s s'))"
    using struct_pack_int_Q_be_nat [OF lb] by simp
  have "take 8 (drop 8 (written s s')) = checkBytes" by (simp add: w ll lc)
  then show "int (be_nat (take 8 (drop 8 (written s s'))))
          = int (length (written s s')) XOR 0xFFFFFFFFFFFFFFFF"
    using struct_pack_int_Q_be_nat [OF cb] by (simp add: LENGTH_MASK_def)
next
  show "PacketEncoder_encode (stream_of [])
        \<lparr>DEFINITION_IDENTIFIER = [100, 101, 109, 111], DEFINITION_VERSION = [49, 46, 48, 46, 48],
         FIELDS = [], rawfields = []\<rparr>
      = Inr \<lparr>buf = [0, 0, 0, 0, 0, 0, 0, 0x1D, 0xFF, 0xFF, 0xFF, 0xFF, 0xFF, 0xFF, 0xFF, 0xE2,
                    4, 100, 101, 109, 111, 5, 49, 46, 48, 46, 48, 0, 0],
             pos = 29, max_size = None, pending = []\<rparr>"
    by (simp add: packet_encode_eval_defs)
qed

theorem C2_frame_header_witness:
  "PacketEncoder_encode (stream_of [])
        \<lparr>DEFINITION_IDENTIFIER = [100, 101, 109, 111], DEFINITION_VERSION = [49, 46, 48, 46, 48],
         FIELDS = [], rawfields = []\<rparr>
      = Inr \<lparr>buf = [0, 0, 0, 0, 0, 0, 0, 0x1D, 0xFF, 0xFF, 0xFF, 0xFF, 0xFF, 0xFF, 0xFF, 0xE2,
                    4, 100, 101, 109, 111, 5, 49, 46, 48, 46, 48, 0, 0],
             pos = 29, max_size = None, pending = []\<rparr>
   \<and> length (written (stream_of [])
        \<lparr>buf = [0, 0, 0, 0, 0, 0, 0, 0x1D, 0xFF, 0xFF, 0xFF, 0xFF, 0xFF, 0xFF, 0xFF, 0xE2,
                    4, 100, 101, 109, 111, 5, 49, 46, 48, 46, 48, 0, 0],
             pos = 29, max_size = None, pending = []\<rparr>) = 29
   \<and> int (be_nat (take 8 (written (stream_of [])
        \<lparr>buf = [0, 0, 0, 0, 0, 0, 0, 0x1D, 0xFF, 0xFF, 0xFF, 0xFF, 0xFF, 0xFF, 0xFF, 0xE2,
                    4, 100, 101, 109, 111, 5, 49, 46, 48, 46, 48, 0, 0],
             pos = 29, max_size = None, pending = []\<rparr>))) = 29
   \<and> int (be_nat (take 8 (drop 8 (written (stream_of [])
        \<lparr>buf = [0, 0, 0, 0, 0, 0, 0, 0x1D, 0xFF, 0xFF, 0xFF, 0xFF, 0xFF, 0xFF, 0xFF, 0xE2,
                    4, 100, 101, 109, 111, 5, 49, 46, 48, 46, 48, 0, 0],
             pos = 29, max_size = None, pending = []\<rparr>)))) = 29 XOR 0xFFFFFFFFFFFFFFFF
   \<and> (29 :: int) XOR 0xFFFFFFFFFFFFFFFF = 0xFFFFFFFFFFFFFFE2"
proof -
  let ?p = "\<lparr>DEFINITION_IDENTIFIER = [100, 101, 109, 111], DEFINITION_VERSION = [49, 46, 48, 46, 48],
         FIELDS = [], rawfields = []\<rparr>"
  let ?s' = "\<lparr>buf = [0, 0, 0, 0, 0, 0, 0, 0x1D, 0xFF, 0xFF, 0xFF, 0xFF, 0xFF, 0xFF, 0xFF, 0xE2,
                    4, 100, 101, 109, 111, 5, 49, 46, 48, 46, 48, 0, 0 :: byte],
             pos = 29, max_size = None, pending = []\<rparr>"
  have e: "PacketEncoder_encode (stream_of []) ?p = Inr ?s'"
    by (simp add: packet_encode_eval_defs)
  have l: "length (written (stream_of []) ?s') = 29"
    by (simp add: written_def stream_of_def)
  have x: "(29 :: int) XOR 0xFFFFFFFFFFFFFFFF = 0xFFFFFFFFFFFFFFE2" by simp
  from C2_frame_header [of "stream_of []" ?p ?s'] e
  have "int (be_nat (take 8 (written (stream_of []) ?s'))) = int (length (written (stream_of []) ?s'))
      \<and> int (be_nat (take 8 (drop 8 (written (stream_of []) ?s'))))
          = int (length (written (stream_of []) ?s')) XOR 0xFFFFFFFFFFFFFFFF"
    by blast
  with e l x show ?thesis by simp
qed



end
